theory Spec2Isabelle
  imports
    Main
    "HOL-Library.Char_ord"
    "HOL-Library.List_Lexorder"
    "HOL-Library.Option_ord"
begin

section \<open>The persistence layer of database.js\<close>

text \<open>
  The development embeds the classes \<^verbatim>\<open>DatabaseManager\<close>, \<^verbatim>\<open>QueryCache\<close> and
  \<^verbatim>\<open>BackgroundSync\<close> of \<^verbatim>\<open>src/database.js\<close>. The one global instance of the three
  classes, the content of the IndexedDB database and the entries of localStorage the
  code reads or writes are the fields of one record, \<open>system\<close>; every method becomes a
  function that takes the system and returns the new one together with the value the
  promise resolves to (\<open>Inr\<close>) or rejects with (\<open>Inl\<close>).

  Conventions.
  \<^item> An \<^verbatim>\<open>await\<close>ed call is run to completion where it is written. A call that is
    \<^emph>\<open>not\<close> awaited (the \<^verbatim>\<open>logAudit\<close> inside the success handlers of \<^verbatim>\<open>add\<close>,
    \<^verbatim>\<open>update\<close> and \<^verbatim>\<open>delete\<close>) runs up to its first suspension, which places the
    write request, and the request stays \<open>inflight\<close> until a later transaction on the
    same object store forces it to complete.
  \<^item> The clock is an argument: \<open>now\<close> is what \<^verbatim>\<open>Date.now()\<close> and \<^verbatim>\<open>new Date()\<close>
    return while the operation runs, in milliseconds since the epoch. An ISO string
    made by \<^verbatim>\<open>toISOString\<close> is the key \<open>Iso t\<close> of its instant \<open>t\<close>.
  \<^item> \<^verbatim>\<open>DatabaseMonitor\<close> only counts events; no modelled operation reads the
    counters, and they are left out, as is the console.
\<close>

subsection \<open>Keys and their text\<close>

datatype key = Num nat | Iso nat | Str string

text \<open>
  IndexedDB orders the keys of an object store; the stores of this database hold keys
  of one shape each (numeric ids, ISO timestamps, setting names), and keys of different
  shapes never meet in one store. Between shapes the order below is numbers, then
  timestamps, then strings.
\<close>

instantiation key :: linorder
begin

fun less_eq_key :: "key \<Rightarrow> key \<Rightarrow> bool" where
  "less_eq_key (Num a) (Num b) = (a \<le> b)"
| "less_eq_key (Num a) (Iso b) = True"
| "less_eq_key (Num a) (Str b) = True"
| "less_eq_key (Iso a) (Num b) = False"
| "less_eq_key (Iso a) (Iso b) = (a \<le> b)"
| "less_eq_key (Iso a) (Str b) = True"
| "less_eq_key (Str a) (Num b) = False"
| "less_eq_key (Str a) (Iso b) = False"
| "less_eq_key (Str a) (Str b) = (a \<le> b)"

definition less_key :: "key \<Rightarrow> key \<Rightarrow> bool" where
  "less_key a b = (a \<le> b \<and> \<not> b \<le> a)"

instance
proof
  fix x y z :: key
  show "(x < y) = (x \<le> y \<and> \<not> y \<le> x)"
    by (simp add: less_key_def)
  show "x \<le> x"
    by (cases x) simp_all
  show "x \<le> y \<Longrightarrow> y \<le> z \<Longrightarrow> x \<le> z"
    by (cases x; cases y; cases z) auto
  show "x \<le> y \<Longrightarrow> y \<le> x \<Longrightarrow> x = y"
    by (cases x; cases y) auto
  show "x \<le> y \<or> y \<le> x"
    by (cases x; cases y) auto
qed

end

definition digitChar :: "nat \<Rightarrow> char" where
  "digitChar n = ''0123456789'' ! n"

function showNat :: "nat \<Rightarrow> string" where
  "showNat n = (if n < 10 then [digitChar n] else showNat (n div 10) @ [digitChar (n mod 10)])"
  by pat_completeness auto
termination
  by (relation "measure (\<lambda>n. n)") auto

declare showNat.simps [simp del]

definition pad :: "nat \<Rightarrow> nat \<Rightarrow> string" where
  "pad w n = replicate (w - length (showNat n)) (CHR ''0'') @ showNat n"

text \<open>
  \<^verbatim>\<open>Date.prototype.toISOString\<close>: the UTC calendar date of an instant, by the usual
  day-count arithmetic on the proleptic Gregorian calendar, in the format
  \<^verbatim>\<open>YYYY-MM-DDTHH:mm:ss.sssZ\<close> (six digits and a sign after the year 9999).
\<close>

definition toISOString :: "nat \<Rightarrow> string" where
  "toISOString ms =
     (let days = ms div 86400000;
          r = ms mod 86400000;
          z = days + 719468;
          era = z div 146097;
          doe = z mod 146097;
          yoe = (doe - doe div 1460 + doe div 36524 - doe div 146096) div 365;
          doy = doe - (365 * yoe + yoe div 4 - yoe div 100);
          mp = (5 * doy + 2) div 153;
          d = doy - (153 * mp + 2) div 5 + 1;
          m = (if mp < 10 then mp + 3 else mp - 9);
          y = yoe + era * 400 + (if m \<le> 2 then 1 else 0)
      in (if y \<le> 9999 then pad 4 y else ''+'' @ pad 6 y) @ ''-'' @ pad 2 m @ ''-'' @ pad 2 d
         @ ''T'' @ pad 2 (r div 3600000) @ '':'' @ pad 2 (r div 60000 mod 60)
         @ '':'' @ pad 2 (r div 1000 mod 60) @ ''.'' @ pad 3 (r mod 1000) @ ''Z'')"

text \<open>The text of a key inside a template literal.\<close>

fun keyText :: "key \<Rightarrow> string" where
  "keyText (Num n) = showNat n"
| "keyText (Iso t) = toISOString t"
| "keyText (Str s) = s"

text \<open>\<^verbatim>\<open>String.prototype.includes\<close>.\<close>

fun isPrefix :: "string \<Rightarrow> string \<Rightarrow> bool" where
  "isPrefix [] s = True"
| "isPrefix (c # p) [] = False"
| "isPrefix (c # p) (d # s) = (c = d \<and> isPrefix p s)"

fun str_includes :: "string \<Rightarrow> string \<Rightarrow> bool" where
  "str_includes [] pat = (pat = [])"
| "str_includes (c # s) pat = (isPrefix pat (c # s) \<or> str_includes s pat)"

subsection \<open>Records of the object stores\<close>

datatype error =
    NotInitialized
  | NotFoundError
  | ConstraintError
  | DataError
  | TypeError
  | SyntaxError

record item =
  productId :: nat
  itemName :: string
  quantity :: nat
  price :: nat

record dbinfo =
  countProducts :: nat
  countSales :: nat
  countBackups :: nat
  countAuditLog :: nat
  countSettings :: nat
  lastBackup :: "key option"

datatype details =
    StoreId string "key option"
  | ItemCounts nat nat
  | RestoredFrom key
  | ErrorInfo error
  | IntegrityInfo "string list" string

text \<open>
  The objects the program stores, by shape. A product is \<^verbatim>\<open>{id, stock, ...}\<close>, a sale
  \<^verbatim>\<open>{id, date, items, ...}\<close> (\<open>None\<close> for a missing item list), a setting
  \<^verbatim>\<open>{key, value}\<close>, a backup \<^verbatim>\<open>{timestamp, type, data, version, info}\<close>, an audit
  entry \<^verbatim>\<open>{id, timestamp, action, details, userId, userName}\<close> whose id is absent
  until the store generates it. The remaining fields of a product or a sale are one
  opaque string. A payload is \<^verbatim>\<open>{products, sales, settings}\<close>, each possibly missing;
  \<open>settings\<close> is an object, given by its entries.
\<close>

datatype row =
    Product nat int string
  | Sale nat nat "item list option" string
  | Setting string string
  | Backup nat string payload nat "dbinfo option"
  | AuditEntry "nat option" nat string details string string
and payload =
    Payload (products: "row list option") (sales: "row list option")
            (settings: "(string \<times> string) list option")

text \<open>Property access: \<open>None\<close> is \<^verbatim>\<open>undefined\<close>.\<close>

fun getProp :: "string \<Rightarrow> row \<Rightarrow> key option" where
  "getProp p (Product i st info) = (if p = ''id'' then Some (Num i) else None)"
| "getProp p (Sale i d its info) =
     (if p = ''id'' then Some (Num i) else if p = ''date'' then Some (Iso d) else None)"
| "getProp p (Setting k v) = (if p = ''key'' then Some (Str k) else None)"
| "getProp p (Backup t ty d v i) = (if p = ''timestamp'' then Some (Iso t) else None)"
| "getProp p (AuditEntry i t a d u n) =
     (if p = ''id'' then map_option Num i
      else if p = ''timestamp'' then Some (Iso t) else None)"

fun stockOf :: "row \<Rightarrow> int option" where
  "stockOf (Product i st info) = Some st"
| "stockOf r = None"

fun itemsOf :: "row \<Rightarrow> item list option" where
  "itemsOf (Sale i d its info) = its"
| "itemsOf r = None"

fun dataOf :: "row \<Rightarrow> payload option" where
  "dataOf (Backup t ty d v i) = Some d"
| "dataOf r = None"

fun typeOf :: "row \<Rightarrow> string option" where
  "typeOf (Backup t ty d v i) = Some ty"
| "typeOf r = None"

text \<open>The instant of \<^verbatim>\<open>new Date(r.timestamp)\<close>; every row of the backup store has one.\<close>

fun timeOf :: "row \<Rightarrow> nat" where
  "timeOf (Backup t ty d v i) = t"
| "timeOf (AuditEntry i t a d u n) = t"
| "timeOf r = 0"

subsection \<open>The system\<close>

datatype jsval = Undefined | Obj row | Arr "row list"

text \<open>
  A localStorage value written by \<^verbatim>\<open>JSON.stringify\<close>: the text of a payload, or a text
  that \<^verbatim>\<open>JSON.parse\<close> rejects (\<^verbatim>\<open>JSON.stringify(undefined)\<close> is stored as the
  text \<^verbatim>\<open>undefined\<close>).
\<close>

datatype blob = Json payload | NotJson

fun stringify :: "payload option \<Rightarrow> blob" where
  "stringify (Some d) = Json d"
| "stringify None = NotJson"

record cached =
  data :: jsval
  timestamp :: nat

record system =
  db :: bool
  auditStore :: bool
  productRows :: "row list"
  saleRows :: "row list"
  settingRows :: "row list"
  backupRows :: "row list"
  auditRows :: "row list"
  nextAuditId :: nat
  inflight :: "row list"
  cache :: "(string \<times> cached) list"
  defaultTTL :: nat
  maxSize :: nat
  lastSync :: "nat option"
  syncInProgress :: bool
  systemData :: "blob option"
  lastSave :: "nat option"
  migratedDate :: "nat option"
  backupData :: "blob option"
  backupLatest :: "blob option"
  loginUserId :: "string option"
  loginUserName :: "string option"

text \<open>
  \<open>db\<close> is whether \<^verbatim>\<open>this.db\<close> is set; \<open>auditStore\<close> whether the database has the
  object store \<^verbatim>\<open>audit_log\<close>; the five row lists are the object stores, each in key
  order; \<open>nextAuditId\<close> is the key generator of \<^verbatim>\<open>audit_log\<close>. \<open>cache\<close> is the
  \<^verbatim>\<open>Map\<close> of the query cache in insertion order. \<open>systemData\<close>, \<open>lastSave\<close>,
  \<open>migratedDate\<close>, \<open>backupData\<close> and \<open>backupLatest\<close> are the localStorage entries
  \<^verbatim>\<open>camarim-system-data\<close>, \<^verbatim>\<open>camarim-last-save\<close>, \<^verbatim>\<open>camarim-migrated-date\<close>,
  \<^verbatim>\<open>camarim-backup-data\<close> and \<^verbatim>\<open>camarim-backup-latest\<close>.
\<close>

subsection \<open>QueryCache\<close>

fun cacheGet :: "string \<Rightarrow> (string \<times> cached) list \<Rightarrow> cached option" where
  "cacheGet k [] = None"
| "cacheGet k ((k', c) # es) = (if k = k' then Some c else cacheGet k es)"

text \<open>\<^verbatim>\<open>Map.set\<close> keeps the place of a key that is present and appends a new one.\<close>

fun cacheSet :: "string \<Rightarrow> cached \<Rightarrow> (string \<times> cached) list \<Rightarrow> (string \<times> cached) list" where
  "cacheSet k c [] = [(k, c)]"
| "cacheSet k c ((k', c') # es) = (if k = k' then (k, c) # es else (k', c') # cacheSet k c es)"

definition cacheDelete :: "string \<Rightarrow> (string \<times> cached) list \<Rightarrow> (string \<times> cached) list" where
  "cacheDelete k es = filter (\<lambda>e. fst e \<noteq> k) es"

text \<open>
  The scan of \<^verbatim>\<open>removeOldest\<close>: the accumulator is \<^verbatim>\<open>(oldestKey, oldestTime)\<close>, \<open>None\<close>
  for \<^verbatim>\<open>(null, Infinity)\<close>.
\<close>

fun oldestEntry :: "(string \<times> cached) list \<Rightarrow> (string \<times> nat) option \<Rightarrow> (string \<times> nat) option" where
  "oldestEntry [] acc = acc"
| "oldestEntry ((k, c) # es) acc =
     oldestEntry es
       (case acc of
          None \<Rightarrow> Some (k, timestamp c)
        | Some (ok, ot) \<Rightarrow> if timestamp c < ot then Some (k, timestamp c) else acc)"

definition removeOldest :: "system \<Rightarrow> system" where
  "removeOldest s =
     (case oldestEntry (cache s) None of
        None \<Rightarrow> s
      | Some (oldestKey, oldestTime) \<Rightarrow>
          if oldestKey \<noteq> [] then s\<lparr>cache := cacheDelete oldestKey (cache s)\<rparr> else s)"

definition invalidatePattern :: "string \<Rightarrow> system \<Rightarrow> system" where
  "invalidatePattern pat s = s\<lparr>cache := filter (\<lambda>e. \<not> str_includes (fst e) pat) (cache s)\<rparr>"

text \<open>
  \<^verbatim>\<open>getOrFetch(key, fetchFunction, ttl)\<close>. \<open>tCheck\<close> is the clock at the freshness test,
  \<open>tStore\<close> the clock when the fetched value is stored. The subtraction is on integers,
  as a clock that went back makes it negative.
\<close>

definition getOrFetch ::
  "nat \<Rightarrow> nat \<Rightarrow> string \<Rightarrow> (system \<Rightarrow> (error + jsval) \<times> system) \<Rightarrow> nat \<Rightarrow> system
     \<Rightarrow> (error + jsval) \<times> system" where
  "getOrFetch tCheck tStore k fetchFunction ttl s =
     (case cacheGet k (cache s) of
        Some c \<Rightarrow>
          if int tCheck - int (timestamp c) < int ttl then (Inr (data c), s)
          else
            (case fetchFunction s of
               (Inl e, s1) \<Rightarrow> (Inl e, s1)
             | (Inr d, s1) \<Rightarrow>
                 let s2 = (if length (cache s1) \<ge> maxSize s1 then removeOldest s1 else s1)
                 in (Inr d, s2\<lparr>cache := cacheSet k \<lparr>data = d, timestamp = tStore\<rparr> (cache s2)\<rparr>))
      | None \<Rightarrow>
          (case fetchFunction s of
             (Inl e, s1) \<Rightarrow> (Inl e, s1)
           | (Inr d, s1) \<Rightarrow>
               let s2 = (if length (cache s1) \<ge> maxSize s1 then removeOldest s1 else s1)
               in (Inr d, s2\<lparr>cache := cacheSet k \<lparr>data = d, timestamp = tStore\<rparr> (cache s2)\<rparr>)))"

subsection \<open>The object stores\<close>

datatype storeId = PRODUCTS | SALES | SETTINGS | BACKUPS | AUDIT_LOG

text \<open>\<^verbatim>\<open>this.stores\<close> and the key paths given to \<^verbatim>\<open>createObjectStore\<close>.\<close>

fun storeName :: "storeId \<Rightarrow> string" where
  "storeName PRODUCTS = ''products''"
| "storeName SALES = ''sales''"
| "storeName SETTINGS = ''settings''"
| "storeName BACKUPS = ''backups''"
| "storeName AUDIT_LOG = ''audit_log''"

fun keyPath :: "storeId \<Rightarrow> string" where
  "keyPath PRODUCTS = ''id''"
| "keyPath SALES = ''id''"
| "keyPath SETTINGS = ''key''"
| "keyPath BACKUPS = ''timestamp''"
| "keyPath AUDIT_LOG = ''id''"

fun rowsOf :: "storeId \<Rightarrow> system \<Rightarrow> row list" where
  "rowsOf PRODUCTS s = productRows s"
| "rowsOf SALES s = saleRows s"
| "rowsOf SETTINGS s = settingRows s"
| "rowsOf BACKUPS s = backupRows s"
| "rowsOf AUDIT_LOG s = auditRows s"

fun setRows :: "storeId \<Rightarrow> row list \<Rightarrow> system \<Rightarrow> system" where
  "setRows PRODUCTS rs s = s\<lparr>productRows := rs\<rparr>"
| "setRows SALES rs s = s\<lparr>saleRows := rs\<rparr>"
| "setRows SETTINGS rs s = s\<lparr>settingRows := rs\<rparr>"
| "setRows BACKUPS rs s = s\<lparr>backupRows := rs\<rparr>"
| "setRows AUDIT_LOG rs s = s\<lparr>auditRows := rs\<rparr>"

text \<open>The object store a name denotes in the open database, if any.\<close>

definition objectStore :: "string \<Rightarrow> system \<Rightarrow> storeId option" where
  "objectStore n s =
     (if n = ''products'' then Some PRODUCTS
      else if n = ''sales'' then Some SALES
      else if n = ''settings'' then Some SETTINGS
      else if n = ''backups'' then Some BACKUPS
      else if n = ''audit_log'' \<and> auditStore s then Some AUDIT_LOG
      else None)"

definition inlineKey :: "storeId \<Rightarrow> row \<Rightarrow> key option" where
  "inlineKey st r = getProp (keyPath st) r"

definition keysOf :: "storeId \<Rightarrow> system \<Rightarrow> key option list" where
  "keysOf st s = map (inlineKey st) (rowsOf st s)"

text \<open>
  \<^verbatim>\<open>audit_log\<close> is created with \<^verbatim>\<open>autoIncrement\<close>: an entry without id receives the
  next number of the key generator. The generator fails once its number exceeds
  \<open>2^53\<close>, and an explicit numeric key moves it forward.
\<close>

fun withGeneratedId :: "nat \<Rightarrow> row \<Rightarrow> row option" where
  "withGeneratedId n (AuditEntry None t a d u m) = Some (AuditEntry (Some n) t a d u m)"
| "withGeneratedId n r = None"

definition bumpGenerator :: "storeId \<Rightarrow> key \<Rightarrow> system \<Rightarrow> system" where
  "bumpGenerator st k s =
     (case k of
        Num n \<Rightarrow> if st = AUDIT_LOG \<and> nextAuditId s \<le> n then s\<lparr>nextAuditId := n + 1\<rparr> else s
      | _ \<Rightarrow> s)"

text \<open>
  Whether \<^verbatim>\<open>store.add(r)\<close> or \<^verbatim>\<open>store.put(r)\<close> can place its request: a row
  without the key path, in a store without key generator, makes the call itself throw
  \<^verbatim>\<open>DataError\<close>. Of the shapes above only an audit entry can take a generated id.
\<close>

definition placeable :: "storeId \<Rightarrow> row \<Rightarrow> bool" where
  "placeable st r = (inlineKey st r \<noteq> None \<or> (st = AUDIT_LOG \<and> withGeneratedId 0 r \<noteq> None))"

text \<open>A placed \<^verbatim>\<open>add\<close> request, executed: it fails when the key is taken.\<close>

definition execAdd :: "storeId \<Rightarrow> row \<Rightarrow> system \<Rightarrow> error + (key \<times> system)" where
  "execAdd st r s =
     (case inlineKey st r of
        Some k \<Rightarrow>
          if Some k \<in> set (keysOf st s) then Inl ConstraintError
          else Inr (k, bumpGenerator st k (setRows st (insort_key (inlineKey st) r (rowsOf st s)) s))
      | None \<Rightarrow>
          if st \<noteq> AUDIT_LOG then Inl DataError
          else if 2 ^ 53 < nextAuditId s then Inl ConstraintError
          else
            (case withGeneratedId (nextAuditId s) r of
               None \<Rightarrow> Inl DataError
             | Some r' \<Rightarrow>
                 Inr (Num (nextAuditId s),
                      s\<lparr>auditRows := insort_key (inlineKey AUDIT_LOG) r' (auditRows s),
                        nextAuditId := nextAuditId s + 1\<rparr>)))"

text \<open>A placed \<^verbatim>\<open>put\<close> request, executed: it replaces the row of the same key.\<close>

definition execPut :: "storeId \<Rightarrow> row \<Rightarrow> system \<Rightarrow> error + (key \<times> system)" where
  "execPut st r s =
     (case inlineKey st r of
        Some k \<Rightarrow>
          Inr (k, bumpGenerator st k
                (setRows st
                  (if Some k \<in> set (keysOf st s)
                   then map (\<lambda>x. if inlineKey st x = Some k then r else x) (rowsOf st s)
                   else insort_key (inlineKey st) r (rowsOf st s)) s))
      | None \<Rightarrow> execAdd st r s)"

definition execDelete :: "storeId \<Rightarrow> key \<Rightarrow> system \<Rightarrow> system" where
  "execDelete st k s = setRows st (filter (\<lambda>r. inlineKey st r \<noteq> Some k) (rowsOf st s)) s"

subsection \<open>Audit entries in flight\<close>

definition newLogEntry :: "nat \<Rightarrow> string \<Rightarrow> details \<Rightarrow> system \<Rightarrow> row" where
  "newLogEntry now action dt s =
     AuditEntry None now action dt
       (case loginUserId s of None \<Rightarrow> ''unknown'' | Some u \<Rightarrow> u)
       (case loginUserName s of None \<Rightarrow> ''Sistema'' | Some u \<Rightarrow> u)"

text \<open>
  \<^verbatim>\<open>this.logAudit(action, details)\<close> called without \<^verbatim>\<open>await\<close>: the body runs to
  \<^verbatim>\<open>await this.add(AUDIT_LOG, logEntry)\<close>, whose request is placed and left pending.
\<close>

definition spawnAudit :: "nat \<Rightarrow> string \<Rightarrow> details \<Rightarrow> system \<Rightarrow> system" where
  "spawnAudit now action dt s =
     (if \<not> db s \<or> \<not> auditStore s then s
      else s\<lparr>inflight := inflight s @ [newLogEntry now action dt s]\<rparr>)"

text \<open>
  A pending audit request completes: on success the handler of \<^verbatim>\<open>add\<close> invalidates the
  cache for \<^verbatim>\<open>audit_log\<close> and calls \<^verbatim>\<open>logAudit('add', ...)\<close> for the entry just written,
  again without \<^verbatim>\<open>await\<close>; the entry object passed to \<^verbatim>\<open>add\<close> carries neither \<^verbatim>\<open>id\<close>
  nor \<^verbatim>\<open>key\<close>. On failure the promise rejects into the \<^verbatim>\<open>catch\<close> of \<^verbatim>\<open>logAudit\<close>.
\<close>

definition completeAudit :: "nat \<Rightarrow> row \<Rightarrow> system \<Rightarrow> system" where
  "completeAudit now e s =
     (case execAdd AUDIT_LOG e s of
        Inl err \<Rightarrow> s
      | Inr (k, s1) \<Rightarrow>
          spawnAudit now ''add'' (StoreId ''audit_log'' None) (invalidatePattern ''audit_log'' s1))"

definition settle :: "nat \<Rightarrow> system \<Rightarrow> system" where
  "settle now s = foldl (\<lambda>s' e. completeAudit now e s') (s\<lparr>inflight := []\<rparr>) (inflight s)"

text \<open>
  \<^verbatim>\<open>this.db.transaction([storeName], mode).objectStore(storeName)\<close>: it throws
  \<^verbatim>\<open>NotFoundError\<close> for a name that is no object store. Transactions on one store run
  in the order they were created, so the pending audit requests complete before a
  transaction on \<^verbatim>\<open>audit_log\<close> proceeds.
\<close>

definition transaction :: "nat \<Rightarrow> string \<Rightarrow> system \<Rightarrow> error + (storeId \<times> system)" where
  "transaction now n s =
     (case objectStore n s of
        None \<Rightarrow> Inl NotFoundError
      | Some st \<Rightarrow> Inr (st, if st = AUDIT_LOG then settle now s else s))"

subsection \<open>DatabaseManager: CRUD\<close>

text \<open>\<^verbatim>\<open>data.id || data.key\<close>: \<^verbatim>\<open>0\<close> and the empty string are falsy.\<close>

fun truthy :: "key \<Rightarrow> bool" where
  "truthy (Num n) = (n \<noteq> 0)"
| "truthy (Iso t) = True"
| "truthy (Str s) = (s \<noteq> [])"

definition idOrKey :: "row \<Rightarrow> key option" where
  "idOrKey r =
     (case getProp ''id'' r of
        Some k \<Rightarrow> if truthy k then Some k else getProp ''key'' r
      | None \<Rightarrow> getProp ''key'' r)"

definition add :: "nat \<Rightarrow> string \<Rightarrow> row \<Rightarrow> system \<Rightarrow> (error + key) \<times> system" where
  "add now n r s =
     (if \<not> db s then (Inl NotInitialized, s)
      else
        (case transaction now n s of
           Inl e \<Rightarrow> (Inl e, s)
         | Inr (st, s1) \<Rightarrow>
             (case execAdd st r s1 of
                Inl e \<Rightarrow> (Inl e, s1)
              | Inr (k, s2) \<Rightarrow>
                  (Inr k, spawnAudit now ''add'' (StoreId n (idOrKey r)) (invalidatePattern n s2)))))"

definition update :: "nat \<Rightarrow> string \<Rightarrow> row \<Rightarrow> system \<Rightarrow> (error + key) \<times> system" where
  "update now n r s =
     (if \<not> db s then (Inl NotInitialized, s)
      else
        (case transaction now n s of
           Inl e \<Rightarrow> (Inl e, s)
         | Inr (st, s1) \<Rightarrow>
             (case execPut st r s1 of
                Inl e \<Rightarrow> (Inl e, s1)
              | Inr (k, s2) \<Rightarrow>
                  (Inr k, spawnAudit now ''update'' (StoreId n (idOrKey r)) (invalidatePattern n s2)))))"

definition delete :: "nat \<Rightarrow> string \<Rightarrow> key \<Rightarrow> system \<Rightarrow> (error + bool) \<times> system" where
  "delete now n k s =
     (if \<not> db s then (Inl NotInitialized, s)
      else
        (case transaction now n s of
           Inl e \<Rightarrow> (Inl e, s)
         | Inr (st, s1) \<Rightarrow>
             (Inr True,
              spawnAudit now ''delete'' (StoreId n (Some k))
                (invalidatePattern n (execDelete st k s1)))))"

text \<open>The loader of \<^verbatim>\<open>get\<close>: \<^verbatim>\<open>store.get(key)\<close> gives \<^verbatim>\<open>undefined\<close> for an absent key.\<close>

definition fetchOne :: "nat \<Rightarrow> string \<Rightarrow> key \<Rightarrow> system \<Rightarrow> (error + jsval) \<times> system" where
  "fetchOne now n k s =
     (if \<not> db s then (Inl NotInitialized, s)
      else
        (case transaction now n s of
           Inl e \<Rightarrow> (Inl e, s)
         | Inr (st, s1) \<Rightarrow>
             (Inr (case find (\<lambda>r. inlineKey st r = Some k) (rowsOf st s1) of
                     None \<Rightarrow> Undefined
                   | Some r \<Rightarrow> Obj r), s1)))"

definition get :: "nat \<Rightarrow> string \<Rightarrow> key \<Rightarrow> system \<Rightarrow> (error + jsval) \<times> system" where
  "get now n k s = getOrFetch now now (n @ ''_'' @ keyText k) (fetchOne now n k) (defaultTTL s) s"

text \<open>
  The secondary indices. The program queries one of them, \<^verbatim>\<open>date\<close> of \<^verbatim>\<open>sales\<close>; the
  others are over fields that the opaque part of a row stands for and are not
  modelled, so here any other index name is unknown. An index lists the rows that have
  the property, by the property and then by primary key.
\<close>

definition indexProp :: "storeId \<Rightarrow> string \<Rightarrow> string option" where
  "indexProp st i = (if st = SALES \<and> i = ''date'' then Some ''date'' else None)"

definition inRange :: "(key \<times> key) option \<Rightarrow> key option \<Rightarrow> bool" where
  "inRange rng k =
     (case rng of
        None \<Rightarrow> True
      | Some (lower, upper) \<Rightarrow> (case k of None \<Rightarrow> False | Some k' \<Rightarrow> lower \<le> k' \<and> k' \<le> upper))"

definition fetchAll ::
  "nat \<Rightarrow> string \<Rightarrow> string option \<Rightarrow> (key \<times> key) option \<Rightarrow> system \<Rightarrow> (error + jsval) \<times> system" where
  "fetchAll now n indexName rng s =
     (if \<not> db s then (Inl NotInitialized, s)
      else
        (case transaction now n s of
           Inl e \<Rightarrow> (Inl e, s)
         | Inr (st, s1) \<Rightarrow>
             (case (if indexName = None \<or> indexName = Some [] then Some (keyPath st)
                    else indexProp st (the indexName)) of
                None \<Rightarrow> (Inl NotFoundError, s1)
              | Some p \<Rightarrow>
                  (Inr (Arr (filter (\<lambda>r. inRange rng (getProp p r))
                              (sort_key (getProp p)
                                 (filter (\<lambda>r. getProp p r \<noteq> None) (rowsOf st s1))))), s1))))"

text \<open>\<^verbatim>\<open>range?.lower || ''\<close> inside the cache key of \<^verbatim>\<open>getAll\<close>.\<close>

definition boundText :: "key option \<Rightarrow> string" where
  "boundText k = (case k of None \<Rightarrow> [] | Some k' \<Rightarrow> if truthy k' then keyText k' else [])"

definition allKey :: "string \<Rightarrow> string option \<Rightarrow> (key \<times> key) option \<Rightarrow> string" where
  "allKey n indexName rng =
     n @ ''_all_'' @ (case indexName of None \<Rightarrow> ''null'' | Some i \<Rightarrow> i) @ ''_''
       @ boundText (map_option fst rng) @ ''_'' @ boundText (map_option snd rng)"

definition getAll ::
  "nat \<Rightarrow> string \<Rightarrow> string option \<Rightarrow> (key \<times> key) option \<Rightarrow> system \<Rightarrow> (error + jsval) \<times> system" where
  "getAll now n indexName rng s =
     getOrFetch now now (allKey n indexName rng) (fetchAll now n indexName rng) (defaultTTL s) s"

text \<open>
  \<^verbatim>\<open>bulkAdd(storeName, items)\<close>; \<open>None\<close> is a \<^verbatim>\<open>null\<close> or \<^verbatim>\<open>undefined\<close> list. The loop
  places one request per item inside the promise executor and stops at the first item
  that cannot be placed, which rejects the promise with \<^verbatim>\<open>DataError\<close>. A placed
  request that fails is not cancelled by its handler (no \<^verbatim>\<open>preventDefault\<close>), so the
  transaction aborts: nothing is written, \<^verbatim>\<open>oncomplete\<close> does not run and
  \<^verbatim>\<open>transaction.onerror\<close> rejects. Otherwise the transaction commits the placed
  requests and \<^verbatim>\<open>oncomplete\<close> invalidates the cache.
\<close>

fun execAll :: "storeId \<Rightarrow> row list \<Rightarrow> system \<Rightarrow> error + system" where
  "execAll st [] s = Inr s"
| "execAll st (r # rs) s =
     (case execAdd st r s of Inl e \<Rightarrow> Inl e | Inr (k, s') \<Rightarrow> execAll st rs s')"

definition bulkAdd :: "nat \<Rightarrow> string \<Rightarrow> row list option \<Rightarrow> system \<Rightarrow> (error + nat) \<times> system" where
  "bulkAdd now n items s =
     (if \<not> db s \<or> items = None \<or> items = Some [] then (Inr 0, s)
      else
        (case transaction now n s of
           Inl e \<Rightarrow> (Inl e, s)
         | Inr (st, s1) \<Rightarrow>
             (let placed = takeWhile (placeable st) (the items);
                  thrown = (length placed < length (the items))
              in case execAll st placed s1 of
                   Inl e \<Rightarrow> (Inl (if thrown then DataError else e), s1)
                 | Inr s2 \<Rightarrow>
                     (if thrown then Inl DataError else Inr (length placed),
                      invalidatePattern n s2))))"

definition clearStore :: "nat \<Rightarrow> string \<Rightarrow> system \<Rightarrow> (error + bool) \<times> system" where
  "clearStore now n s =
     (if \<not> db s then (Inl NotInitialized, s)
      else
        (case transaction now n s of
           Inl e \<Rightarrow> (Inl e, s)
         | Inr (st, s1) \<Rightarrow> (Inr True, invalidatePattern n (setRows st [] s1))))"

definition getStoreCount :: "nat \<Rightarrow> string \<Rightarrow> system \<Rightarrow> (error + nat) \<times> system" where
  "getStoreCount now n s =
     (if \<not> db s then (Inl NotInitialized, s)
      else
        (case transaction now n s of
           Inl e \<Rightarrow> (Inl e, s)
         | Inr (st, s1) \<Rightarrow> (Inr (length (rowsOf st s1)), s1)))"

subsection \<open>Audit log\<close>

text \<open>The body of the \<^verbatim>\<open>try\<close> block of \<^verbatim>\<open>logAudit\<close>, and \<^verbatim>\<open>logAudit\<close> with its \<^verbatim>\<open>catch\<close>.\<close>

definition logAuditBody :: "nat \<Rightarrow> string \<Rightarrow> details \<Rightarrow> system \<Rightarrow> (error + unit) \<times> system" where
  "logAuditBody now action dt s =
     (if \<not> db s \<or> \<not> auditStore s then (Inr (), s)
      else
        (case add now ''audit_log'' (newLogEntry now action dt s) s of
           (Inl e, s1) \<Rightarrow> (Inl e, s1)
         | (Inr k, s1) \<Rightarrow> (Inr (), s1)))"

definition logAudit :: "nat \<Rightarrow> string \<Rightarrow> details \<Rightarrow> system \<Rightarrow> (error + unit) \<times> system" where
  "logAudit now action dt s =
     (case logAuditBody now action dt s of
        (Inl e, s1) \<Rightarrow> (Inr (), s1)
      | (Inr u, s1) \<Rightarrow> (Inr u, s1))"

subsection \<open>Reading the whole system\<close>

text \<open>
  What an array method needs: \<^verbatim>\<open>map\<close>, \<^verbatim>\<open>filter\<close>, \<^verbatim>\<open>sort\<close> and \<^verbatim>\<open>forEach\<close> throw
  \<^verbatim>\<open>TypeError\<close> on a value that is no array.
\<close>

fun asArray :: "jsval \<Rightarrow> row list option" where
  "asArray (Arr xs) = Some xs"
| "asArray v = None"

text \<open>
  \<^verbatim>\<open>products || []\<close>. A value that is no array has no \<^verbatim>\<open>length\<close>, and every reader
  of a payload tests \<^verbatim>\<open>length > 0\<close> first, so it stands for the empty list.
\<close>

fun orEmpty :: "jsval \<Rightarrow> row list" where
  "orEmpty (Arr xs) = xs"
| "orEmpty v = []"

text \<open>
  The callers of \<^verbatim>\<open>getAll\<close> receive the array that the cache holds, and some change it
  in place (\<^verbatim>\<open>sort\<close>, an assignment to a field of an element): the entry under the key
  changes with it.
\<close>

definition mutateCached :: "string \<Rightarrow> (row list \<Rightarrow> row list) \<Rightarrow> system \<Rightarrow> system" where
  "mutateCached k f s =
     s\<lparr>cache :=
         map (\<lambda>e. if fst e = k
                   then (fst e, (snd e)\<lparr>data := (case data (snd e) of Arr xs \<Rightarrow> Arr (f xs) | v \<Rightarrow> v)\<rparr>)
                   else e)
             (cache s)\<rparr>"

definition getDefaultSettings :: "(string \<times> string) list" where
  "getDefaultSettings =
     [(''defaultDebitFee'', ''2''), (''defaultCreditFee'', ''4.5''), (''defaultTax'', ''6''),
      (''defaultMargin'', ''40''), (''monthlyOperationalExpenses'', ''4000''),
      (''lastProductId'', ''0''), (''lastSaleId'', ''0'')]"

definition getFallbackData :: "system \<Rightarrow> payload" where
  "getFallbackData s =
     (case systemData s of
        Some (Json d) \<Rightarrow> d
      | _ \<Rightarrow> Payload (Some []) (Some []) (Some getDefaultSettings))"

text \<open>\<^verbatim>\<open>settings[setting.key] = setting.value\<close> over the rows of the settings store.\<close>

fun objSet :: "string \<Rightarrow> string \<Rightarrow> (string \<times> string) list \<Rightarrow> (string \<times> string) list" where
  "objSet k v [] = [(k, v)]"
| "objSet k v ((k', v') # es) = (if k = k' then (k, v) # es else (k', v') # objSet k v es)"

fun entryOf :: "row \<Rightarrow> string \<times> string" where
  "entryOf (Setting k v) = (k, v)"
| "entryOf r = (''undefined'', [])"

definition settingsObject :: "row list \<Rightarrow> (string \<times> string) list" where
  "settingsObject rs = foldl (\<lambda>obj r. objSet (fst (entryOf r)) (snd (entryOf r)) obj) [] rs"

text \<open>
  \<^verbatim>\<open>getSystemData\<close>: the three reads of \<^verbatim>\<open>Promise.all\<close> in the order they are
  started; a rejected read, or a settings value without \<^verbatim>\<open>forEach\<close>, leads to the
  fallback.
\<close>

definition getSystemData :: "nat \<Rightarrow> system \<Rightarrow> payload \<times> system" where
  "getSystemData now s =
     (case getAll now ''products'' None None s of (r1, s1) \<Rightarrow>
      case getAll now ''sales'' None None s1 of (r2, s2) \<Rightarrow>
      case getAll now ''settings'' None None s2 of (r3, s3) \<Rightarrow>
        (case (r1, r2, r3) of
           (Inr p, Inr sa, Inr (Obj r)) \<Rightarrow> (getFallbackData s3, s3)
         | (Inr p, Inr sa, Inr se) \<Rightarrow>
             (Payload (Some (orEmpty p)) (Some (orEmpty sa)) (Some (settingsObject (orEmpty se))), s3)
         | _ \<Rightarrow> (getFallbackData s3, s3)))"

subsection \<open>Backups\<close>

text \<open>
  \<^verbatim>\<open>getBackups(type)\<close>: newest first. Without a type the array sorted in place is the
  cached one.
\<close>

definition newestFirst :: "row list \<Rightarrow> row list" where
  "newestFirst bs = sort_key (\<lambda>b. - int (timeOf b)) bs"

definition getBackups :: "nat \<Rightarrow> string option \<Rightarrow> system \<Rightarrow> row list \<times> system" where
  "getBackups now ty s =
     (case getAll now ''backups'' None None s of
        (Inl e, s1) \<Rightarrow> ([], s1)
      | (Inr v, s1) \<Rightarrow>
          (case asArray v of
             None \<Rightarrow> ([], s1)
           | Some bs \<Rightarrow>
               if ty = None \<or> ty = Some []
               then (newestFirst bs, mutateCached (allKey ''backups'' None None) newestFirst s1)
               else (newestFirst (filter (\<lambda>b. typeOf b = ty) bs), s1)))"

definition getLastBackupDate :: "nat \<Rightarrow> system \<Rightarrow> key option \<times> system" where
  "getLastBackupDate now s =
     (case getBackups now None s of
        ([], s1) \<Rightarrow> (None, s1)
      | (b # bs, s1) \<Rightarrow> (getProp ''timestamp'' b, s1))"

text \<open>
  \<^verbatim>\<open>getDatabaseInfo\<close>, without the storage estimate of the browser and the metrics of
  the monitor. One rejected count rejects \<^verbatim>\<open>Promise.all\<close>, and the \<^verbatim>\<open>catch\<close> returns
  \<^verbatim>\<open>null\<close>.
\<close>

definition getDatabaseInfo :: "nat \<Rightarrow> system \<Rightarrow> dbinfo option \<times> system" where
  "getDatabaseInfo now s =
     (if \<not> db s then (None, s)
      else
        (case getStoreCount now ''products'' s of (c1, s1) \<Rightarrow>
         case getStoreCount now ''sales'' s1 of (c2, s2) \<Rightarrow>
         case getStoreCount now ''backups'' s2 of (c3, s3) \<Rightarrow>
         case getStoreCount now ''audit_log'' s3 of (c4, s4) \<Rightarrow>
         case getStoreCount now ''settings'' s4 of (c5, s5) \<Rightarrow>
           (case (c1, c2, c3, c4, c5) of
              (Inr n1, Inr n2, Inr n3, Inr n4, Inr n5) \<Rightarrow>
                (case getLastBackupDate now s5 of (lb, s6) \<Rightarrow>
                   (Some \<lparr>countProducts = n1, countSales = n2, countBackups = n3,
                          countAuditLog = n4, countSettings = n5, lastBackup = lb\<rparr>, s6))
            | _ \<Rightarrow> (None, s5))))"

text \<open>The loop \<^verbatim>\<open>for (const r of rows) await this.delete(store, r[p])\<close>.\<close>

fun deleteAll :: "nat \<Rightarrow> string \<Rightarrow> string \<Rightarrow> row list \<Rightarrow> system \<Rightarrow> (error + unit) \<times> system" where
  "deleteAll now n p [] s = (Inr (), s)"
| "deleteAll now n p (r # rs) s =
     (case getProp p r of
        None \<Rightarrow> (Inl DataError, s)
      | Some k \<Rightarrow>
          (case delete now n k s of
             (Inl e, s1) \<Rightarrow> (Inl e, s1)
           | (Inr b, s1) \<Rightarrow> deleteAll now n p rs s1))"

definition cleanupOldBackups :: "nat \<Rightarrow> nat \<Rightarrow> system \<Rightarrow> system" where
  "cleanupOldBackups now maxBackups s =
     (case getAll now ''backups'' None None s of
        (Inl e, s1) \<Rightarrow> s1
      | (Inr v, s1) \<Rightarrow>
          (case asArray v of
             None \<Rightarrow> s1
           | Some bs \<Rightarrow>
               if maxBackups < length bs
               then snd (deleteAll now ''backups'' ''timestamp''
                           (take (length bs - maxBackups) (sort_key timeOf bs))
                           (mutateCached (allKey ''backups'' None None) (sort_key timeOf) s1))
               else s1))"

text \<open>
  \<^verbatim>\<open>createBackup(type, data)\<close>: \<open>None\<close> for the timestamp is the \<^verbatim>\<open>null\<close> of the
  \<^verbatim>\<open>catch\<close>. Only \<^verbatim>\<open>add\<close> can reject inside the \<^verbatim>\<open>try\<close>; the callees before and after
  it catch their own failures. The version is \<^verbatim>\<open>this.dbVersion\<close>, 3.
\<close>

definition createBackup :: "nat \<Rightarrow> string \<Rightarrow> payload option \<Rightarrow> system \<Rightarrow> key option \<times> system" where
  "createBackup now ty dt s =
     (case (case dt of Some d \<Rightarrow> (d, s) | None \<Rightarrow> getSystemData now s) of (d, s1) \<Rightarrow>
        (case getDatabaseInfo now s1 of (info, s2) \<Rightarrow>
           (case add now ''backups'' (Backup now ty d 3 info) s2 of
              (Inl e, s3) \<Rightarrow> (None, s3)
            | (Inr k, s3) \<Rightarrow> (Some (Iso now), cleanupOldBackups now 30 s3))))"

subsection \<open>Saving and restoring\<close>

definition andThen ::
  "(error + 'a) \<times> system \<Rightarrow> (system \<Rightarrow> (error + 'b) \<times> system) \<Rightarrow> (error + 'b) \<times> system" where
  "andThen r f = (case r of (Inl e, s) \<Rightarrow> (Inl e, s) | (Inr x, s) \<Rightarrow> f s)"

text \<open>
  The callback that \<^verbatim>\<open>saveSystemData\<close> hands to \<^verbatim>\<open>executeTransaction\<close>. Reading
  \<^verbatim>\<open>data.products\<close> of an undefined payload throws \<^verbatim>\<open>TypeError\<close> before anything is
  awaited.
\<close>

definition saveOperations :: "nat \<Rightarrow> payload option \<Rightarrow> system \<Rightarrow> (error + unit) \<times> system" where
  "saveOperations now dt s =
     (case dt of
        None \<Rightarrow> (Inl TypeError, s)
      | Some d \<Rightarrow>
          andThen
            (case products d of
               Some (x # xs) \<Rightarrow>
                 andThen (clearStore now ''products'' s) (bulkAdd now ''products'' (products d))
             | _ \<Rightarrow> (Inr 0, s))
            (\<lambda>s1. andThen
               (case sales d of
                  Some (x # xs) \<Rightarrow>
                    andThen (clearStore now ''sales'' s1) (bulkAdd now ''sales'' (sales d))
                | _ \<Rightarrow> (Inr 0, s1))
               (\<lambda>s2. case settings d of
                  Some es \<Rightarrow>
                    andThen (clearStore now ''settings'' s2)
                      (\<lambda>s3. andThen
                         (bulkAdd now ''settings'' (Some (map (\<lambda>e. Setting (fst e) (snd e)) es)) s3)
                         (\<lambda>s4. (Inr (), s4)))
                | None \<Rightarrow> (Inr (), s2))))"

text \<open>
  \<^verbatim>\<open>executeTransaction(operations)\<close> opens a transaction over the three data stores,
  places no request in it and resolves when it completes. The store operations of the
  callback use transactions of their own, which cannot start before the enclosing one
  has completed: a rejection of one of them finds the promise settled and is lost,
  and only a failure before the first \<^verbatim>\<open>await\<close> of the callback (\<^verbatim>\<open>TypeError\<close>) rejects.
  The operations themselves are run here, where the callback is called.
\<close>

definition executeTransaction ::
  "(system \<Rightarrow> (error + unit) \<times> system) \<Rightarrow> system \<Rightarrow> (error + unit) \<times> system" where
  "executeTransaction operations s =
     (if \<not> db s then (Inl NotInitialized, s)
      else
        (case operations s of
           (Inl TypeError, s1) \<Rightarrow> (Inl TypeError, s1)
         | (r, s1) \<Rightarrow> (Inr (), s1)))"

definition saveToLocalStorageFallback :: "payload option \<Rightarrow> system \<Rightarrow> bool \<times> system" where
  "saveToLocalStorageFallback dt s = (True, s\<lparr>systemData := Some (stringify dt)\<rparr>)"

definition saveSystemData :: "nat \<Rightarrow> payload option \<Rightarrow> system \<Rightarrow> bool \<times> system" where
  "saveSystemData now dt s =
     (case executeTransaction (saveOperations now dt) s of
        (Inl e, s1) \<Rightarrow> saveToLocalStorageFallback dt s1
      | (Inr u, s1) \<Rightarrow>
          (case createBackup now ''auto'' dt s1 of (t, s2) \<Rightarrow>
             (True, s2\<lparr>backupLatest := Some (stringify dt), lastSave := Some now\<rparr>)))"

text \<open>
  \<^verbatim>\<open>restoreBackup(timestamp)\<close>: \<open>t1\<close> is the clock up to the safety backup, \<open>t2\<close> the
  clock from \<^verbatim>\<open>saveSystemData\<close> on. The results of \<^verbatim>\<open>createBackup\<close> and
  \<^verbatim>\<open>saveSystemData\<close> are not looked at.
\<close>

definition restoreBackup :: "nat \<Rightarrow> nat \<Rightarrow> key \<Rightarrow> system \<Rightarrow> bool \<times> system" where
  "restoreBackup t1 t2 ts s =
     (case get t1 ''backups'' ts s of
        (Inl e, s1) \<Rightarrow> (False, s1)
      | (Inr Undefined, s1) \<Rightarrow> (False, s1)
      | (Inr backup, s1) \<Rightarrow>
          (case createBackup t1 ''pre_restore'' None s1 of (t, s2) \<Rightarrow>
           case saveSystemData t2 (case backup of Obj r \<Rightarrow> dataOf r | _ \<Rightarrow> None) s2 of (b, s3) \<Rightarrow>
           case logAudit t2 ''restore_backup'' (RestoredFrom ts) s3 of (u, s4) \<Rightarrow>
             (True, s4)))"

subsection \<open>Migration from localStorage\<close>

text \<open>
  One block of \<^verbatim>\<open>mergeData\<close>; the block for the products and the block for the sales
  are the same code on the two stores.
\<close>

definition mergeStore :: "nat \<Rightarrow> string \<Rightarrow> row list option \<Rightarrow> system \<Rightarrow> (error + unit) \<times> system" where
  "mergeStore now n items s =
     (case items of
        Some (x # xs) \<Rightarrow>
          (case getAll now n None None s of
             (Inl e, s1) \<Rightarrow> (Inl e, s1)
           | (Inr v, s1) \<Rightarrow>
               (case asArray v of
                  None \<Rightarrow> (Inl TypeError, s1)
                | Some existing \<Rightarrow>
                    (let existingIds = set (map (getProp ''id'') existing);
                         newItems = filter (\<lambda>p. getProp ''id'' p \<notin> existingIds) (x # xs)
                     in if newItems \<noteq> []
                        then andThen (bulkAdd now n (Some newItems) s1) (\<lambda>s2. (Inr (), s2))
                        else (Inr (), s1))))
      | _ \<Rightarrow> (Inr (), s))"

definition mergeData :: "nat \<Rightarrow> payload \<Rightarrow> system \<Rightarrow> (error + unit) \<times> system" where
  "mergeData now d s =
     andThen (mergeStore now ''products'' (products d) s) (mergeStore now ''sales'' (sales d))"

definition itemCounts :: "payload \<Rightarrow> details" where
  "itemCounts d =
     ItemCounts (case products d of None \<Rightarrow> 0 | Some xs \<Rightarrow> length xs)
                (case sales d of None \<Rightarrow> 0 | Some xs \<Rightarrow> length xs)"

text \<open>
  \<^verbatim>\<open>migrateFromLocalStorage\<close>: \<open>t1\<close> is the clock up to the merge, \<open>t2\<close> the clock from
  the migration backup on. Every failure inside the \<^verbatim>\<open>try\<close> ends in the audit entry
  \<^verbatim>\<open>migration_error\<close>.
\<close>

definition migrationFailed :: "nat \<Rightarrow> error \<Rightarrow> system \<Rightarrow> system" where
  "migrationFailed now e s = snd (logAudit now ''migration_error'' (ErrorInfo e) s)"

definition migrateFromLocalStorage :: "nat \<Rightarrow> nat \<Rightarrow> system \<Rightarrow> system" where
  "migrateFromLocalStorage t1 t2 s =
     (case systemData s of
        None \<Rightarrow> s
      | Some NotJson \<Rightarrow> migrationFailed t1 SyntaxError s
      | Some (Json d) \<Rightarrow>
          (case logAudit t1 ''migration_start'' (itemCounts d) s of (u, s1) \<Rightarrow>
             (case getStoreCount t1 ''products'' s1 of
                (Inl e, s2) \<Rightarrow> migrationFailed t1 e s2
              | (Inr existingProducts, s2) \<Rightarrow>
                  (case getStoreCount t1 ''sales'' s2 of
                     (Inl e, s3) \<Rightarrow> migrationFailed t1 e s3
                   | (Inr existingSales, s3) \<Rightarrow>
                       (case (if 0 < existingProducts \<or> 0 < existingSales then mergeData t1 d s3
                              else (Inr (), snd (saveSystemData t1 (Some d) s3))) of
                          (Inl e, s4) \<Rightarrow> migrationFailed t1 e s4
                        | (Inr u', s4) \<Rightarrow>
                            (case createBackup t2 ''migration'' (Some d) s4 of (t, s5) \<Rightarrow>
                               snd (logAudit t2 ''migration_complete'' (itemCounts d)
                                      (s5\<lparr>migratedDate := Some t2,
                                          backupData := systemData s\<rparr>))))))))"

subsection \<open>BackgroundSync\<close>

text \<open>
  \<^verbatim>\<open>getSalesByDateRange\<close>: \<^verbatim>\<open>IDBKeyRange.bound\<close> throws when the lower bound is above the
  upper one, and the \<^verbatim>\<open>catch\<close> returns the empty array.
\<close>

definition getSalesByDateRange :: "nat \<Rightarrow> key \<Rightarrow> key \<Rightarrow> system \<Rightarrow> jsval \<times> system" where
  "getSalesByDateRange now startDate endDate s =
     (if endDate < startDate then (Arr [], s)
      else
        (case getAll now ''sales'' (Some ''date'') (Some (startDate, endDate)) s of
           (Inl e, s1) \<Rightarrow> (Arr [], s1)
         | (Inr v, s1) \<Rightarrow> (v, s1)))"

text \<open>
  \<^verbatim>\<open>cleanupOldData\<close>. \<open>twoYearsAgo\<close> is the instant \<^verbatim>\<open>setFullYear(getFullYear() - 2)\<close>
  computes from the clock in the local time zone.
\<close>

definition cleanupOldData :: "nat \<Rightarrow> nat \<Rightarrow> system \<Rightarrow> system" where
  "cleanupOldData now twoYearsAgo s =
     (case getSalesByDateRange now (Iso 0) (Iso twoYearsAgo) s of
        (Arr (x # xs), s1) \<Rightarrow>
          (case createBackup now ''archive''
                  (Some (Payload (Some []) (Some (x # xs)) (Some []))) s1 of
             (t, s2) \<Rightarrow> snd (deleteAll now ''sales'' ''id'' (x # xs) s2))
      | (v, s1) \<Rightarrow> s1)"

definition hasChangesSinceLastSync :: "system \<Rightarrow> bool" where
  "hasChangesSinceLastSync s =
     (case (lastSave s, lastSync s) of
        (Some saved, Some synced) \<Rightarrow> synced < saved
      | _ \<Rightarrow> True)"

text \<open>The text \<^verbatim>\<open>Erro na verificacao\<close> with its cedilla and tilde, in UTF-8.\<close>

definition integrityError :: string where
  "integrityError =
     ''Erro na verifica'' @ [char_of (195 :: nat), char_of (167 :: nat),
                             char_of (195 :: nat), char_of (163 :: nat)] @ ''o''"

definition negativeStock :: "row \<Rightarrow> bool" where
  "negativeStock p = (case stockOf p of None \<Rightarrow> False | Some st \<Rightarrow> st < 0)"

fun clampStock :: "row \<Rightarrow> row" where
  "clampStock (Product i st info) = Product i (max 0 st) info"
| "clampStock r = r"

text \<open>
  The repair loop of \<^verbatim>\<open>checkDataIntegrity\<close> over the negative products, each with its
  position in the array read: the assignment to \<^verbatim>\<open>product.stock\<close> changes the element
  of the cached array, then \<^verbatim>\<open>update\<close> writes it.
\<close>

fun repairStock :: "nat \<Rightarrow> (nat \<times> row) list \<Rightarrow> system \<Rightarrow> (error + unit) \<times> system" where
  "repairStock now [] s = (Inr (), s)"
| "repairStock now ((i, p) # ps) s =
     (case update now ''products'' (clampStock p)
             (mutateCached (allKey ''products'' None None) (\<lambda>xs. xs[i := clampStock p]) s) of
        (Inl e, s1) \<Rightarrow> (Inl e, s1)
      | (Inr k, s1) \<Rightarrow> repairStock now ps s1)"

text \<open>\<^verbatim>\<open>productIds.filter((id, index) => productIds.indexOf(id) !== index)\<close>.\<close>

fun duplicates :: "'a list \<Rightarrow> 'a list \<Rightarrow> 'a list" where
  "duplicates seen [] = []"
| "duplicates seen (x # xs) =
     (if x \<in> set seen then x # duplicates seen xs else duplicates (seen @ [x]) xs)"

definition emptySale :: "row \<Rightarrow> bool" where
  "emptySale r = (case itemsOf r of None \<Rightarrow> True | Some its \<Rightarrow> its = [])"

definition checkDataIntegrity :: "nat \<Rightarrow> system \<Rightarrow> string list \<times> system" where
  "checkDataIntegrity now s =
     (case getAll now ''products'' None None s of (r1, s1) \<Rightarrow>
      case getAll now ''sales'' None None s1 of (r2, s2) \<Rightarrow>
        (case (r1, r2) of
           (Inr v1, Inr v2) \<Rightarrow>
             (case asArray v1 of
                None \<Rightarrow> ([integrityError], s2)
              | Some ps \<Rightarrow>
                  (let neg = filter (\<lambda>ip. negativeStock (snd ip)) (zip [0 ..< length ps] ps);
                       issues1 = (if neg \<noteq> []
                                  then [showNat (length neg) @ '' produtos com estoque negativo'']
                                  else [])
                   in case repairStock now neg s2 of
                        (Inl e, s3) \<Rightarrow> ([integrityError], s3)
                      | (Inr u, s3) \<Rightarrow>
                          (case asArray v2 of
                             None \<Rightarrow> ([integrityError], s3)
                           | Some ss \<Rightarrow>
                               (let emptySales = filter emptySale ss;
                                    issues2 = (if emptySales \<noteq> []
                                               then [showNat (length emptySales) @ '' vendas sem itens'']
                                               else []);
                                    duplicateIds = duplicates [] (map (getProp ''id'') ps);
                                    issues3 = (if duplicateIds \<noteq> []
                                               then [showNat (length duplicateIds)
                                                     @ '' IDs de produto duplicados'']
                                               else []);
                                    issues = issues1 @ issues2 @ issues3
                                in if issues \<noteq> []
                                   then (issues,
                                         snd (logAudit now ''integrity_check''
                                                (IntegrityInfo issues
                                                   (if neg \<noteq> [] then ''negative_stock'' else ''none''))
                                                s3))
                                   else (issues, s3)))))
         | _ \<Rightarrow> ([integrityError], s2)))"

text \<open>
  \<^verbatim>\<open>sync\<close>: \<open>syncTry\<close> is the \<^verbatim>\<open>try\<close> block, whose callees catch their own failures;
  the four clock readings are those of the integrity check, of the \<^verbatim>\<open>auto_sync\<close>
  backup, of the archival and of \<^verbatim>\<open>this.lastSync = new Date()\<close>.
\<close>

definition syncTry :: "nat \<Rightarrow> nat \<Rightarrow> nat \<Rightarrow> nat \<Rightarrow> nat \<Rightarrow> system \<Rightarrow> system" where
  "syncTry t1 t2 t3 t4 twoYearsAgo s =
     (case checkDataIntegrity t1 s of (issues, s1) \<Rightarrow>
        (cleanupOldData t3 twoYearsAgo
           (if hasChangesSinceLastSync s1 then snd (createBackup t2 ''auto_sync'' None s1) else s1))
        \<lparr>lastSync := Some t4\<rparr>)"

definition sync :: "nat \<Rightarrow> nat \<Rightarrow> nat \<Rightarrow> nat \<Rightarrow> nat \<Rightarrow> system \<Rightarrow> system" where
  "sync t1 t2 t3 t4 twoYearsAgo s =
     (if syncInProgress s then s
      else (syncTry t1 t2 t3 t4 twoYearsAgo (s\<lparr>syncInProgress := True\<rparr>))\<lparr>syncInProgress := False\<rparr>)"

section \<open>Notions used in the statements\<close>

text \<open>
  \<^item> \<open>frame s s'\<close>: \<open>s'\<close> differs from \<open>s\<close> at most in the audit trail (stored and in-flight
    entries, key generator) and in the query cache;
  \<^item> \<open>frameS st s s'\<close>: the same, and the rows of store \<open>st\<close> may differ too;
  \<^item> \<open>frameD s s'\<close>: the same, and the rows of the four data stores may differ too;
  \<^item> \<open>wfStore st s\<close>: the rows of \<open>st\<close> are in key order, with distinct and present keys,
    which is how IndexedDB keeps an object store;
  \<^item> \<open>cacheAgrees k v s\<close>: if the cache has an entry for \<open>k\<close>, its data is \<open>v\<close>;
  \<^item> \<open>createBackups ts ty s\<close>: one \<open>createBackup\<close> call of type \<open>ty\<close> at each time of \<open>ts\<close>,
    each one awaited;
  \<^item> \<open>newSystem\<close> is the state before \<open>init\<close>, \<open>openSystem\<close> the state after \<open>init\<close> on an
    empty database; the other states are examples.
\<close>

definition frame :: "system \<Rightarrow> system \<Rightarrow> bool" where
  "frame s s' = (s' = s\<lparr>auditRows := auditRows s', nextAuditId := nextAuditId s',
                          inflight := inflight s', cache := cache s'\<rparr>)"

definition wfStore :: "storeId \<Rightarrow> system \<Rightarrow> bool" where
  "wfStore st s = (sorted (keysOf st s) \<and> distinct (keysOf st s) \<and> None \<notin> set (keysOf st s))"

definition cacheAgrees :: "string \<Rightarrow> jsval \<Rightarrow> system \<Rightarrow> bool" where
  "cacheAgrees k v s = (case cacheGet k (cache s) of None \<Rightarrow> True | Some c \<Rightarrow> data c = v)"

definition frameS :: "storeId \<Rightarrow> system \<Rightarrow> system \<Rightarrow> bool" where
  "frameS st s s' = frame (setRows st (rowsOf st s') s) s'"

definition frameD :: "system \<Rightarrow> system \<Rightarrow> bool" where
  "frameD s s' = frame (s\<lparr>productRows := productRows s', saleRows := saleRows s',
                           settingRows := settingRows s', backupRows := backupRows s'\<rparr>) s'"

fun createBackups :: "nat list \<Rightarrow> string \<Rightarrow> system \<Rightarrow> system" where
  "createBackups [] ty s = s"
| "createBackups (t # ts) ty s = createBackups ts ty (snd (createBackup t ty None s))"

definition newSystem :: system where
  "newSystem = \<lparr>db = False, auditStore = False, productRows = [], saleRows = [], settingRows = [],
     backupRows = [], auditRows = [], nextAuditId = 1, inflight = [], cache = [],
     defaultTTL = 300000, maxSize = 100, lastSync = None, syncInProgress = False,
     systemData = None, lastSave = None, migratedDate = None, backupData = None,
     backupLatest = None, loginUserId = None, loginUserName = None\<rparr>"

definition openSystem :: system where
  "openSystem = newSystem\<lparr>db := True, auditStore := True\<rparr>"

definition cachedSystem :: system where
  "cachedSystem = openSystem\<lparr>cache :=
      [(''products_all_null__'', \<lparr>data = Arr [], timestamp = 1\<rparr>),
       (''sales_all_null__'', \<lparr>data = Arr [], timestamp = 2\<rparr>)]\<rparr>"

definition cachedAfterAdd :: system where
  "cachedAfterAdd = cachedSystem\<lparr>productRows := [Product 1 2 ''a''],
       inflight := [AuditEntry None 5 ''add'' (StoreId ''products'' (Some (Num 1))) ''unknown'' ''Sistema''],
       cache := [(''sales_all_null__'', \<lparr>data = Arr [], timestamp = 2\<rparr>)]\<rparr>"

definition exhaustedSystem :: system where
  "exhaustedSystem = openSystem\<lparr>nextAuditId := 2 ^ 53 + 1\<rparr>"

definition syncingSystem :: system where
  "syncingSystem = openSystem\<lparr>syncInProgress := True\<rparr>"


definition integritySystem :: system where
  "integritySystem = openSystem\<lparr>productRows := [Product 1 (- 3) ''a'', Product 2 5 ''b''],
                                saleRows := [Sale 1 10 (Some []) ''x'']\<rparr>"

definition archiveSystem :: system where
  "archiveSystem = openSystem\<lparr>saleRows := [Sale 1 10 None ''x''],
     backupRows := [Backup 100 ''manual'' (Payload (Some []) (Some []) (Some [])) 3 None]\<rparr>"

definition oldSalesSystem :: system where
  "oldSalesSystem = openSystem\<lparr>saleRows := [Sale 1 10 None ''x'', Sale 2 60 (Some []) ''y'']\<rparr>"

text \<open>
  For the query cache: \<open>fetchUndefined\<close> is a loader that resolves to \<^verbatim>\<open>undefined\<close> and touches
  nothing; \<open>fetchEach kts s\<close> calls \<open>getOrFetch\<close> with this loader for each key of \<open>kts\<close> in turn,
  at the clock reading paired with the key; \<open>entryAt (k, t)\<close> is the cache entry such a call
  stores; \<open>manyKeys n\<close> are the \<open>n\<close> keys \<^verbatim>\<open>''\<close>, \<^verbatim>\<open>'k'\<close>, \<^verbatim>\<open>'kk'\<close>, ... with the clock readings
  \<open>0, 1, 2, ...\<close>.
\<close>

definition fetchUndefined :: "system \<Rightarrow> (error + jsval) \<times> system" where
  "fetchUndefined s = (Inr Undefined, s)"

fun fetchEach :: "(string \<times> nat) list \<Rightarrow> system \<Rightarrow> system" where
  "fetchEach [] s = s"
| "fetchEach ((k, t) # kts) s = fetchEach kts (snd (getOrFetch t t k fetchUndefined (defaultTTL s) s))"

definition entryAt :: "string \<times> nat \<Rightarrow> string \<times> cached" where
  "entryAt kt = (fst kt, \<lparr>data = Undefined, timestamp = snd kt\<rparr>)"

definition manyKeys :: "nat \<Rightarrow> (string \<times> nat) list" where
  "manyKeys n = map (\<lambda>i. (replicate i CHR ''k'', i)) [0 ..< n]"

text \<open>
  For saving and restoring: \<open>listOf\<close> reads a missing list as the empty one;
  \<open>wellKeyed st items\<close> says that the rows \<open>items\<close> all have the key of store \<open>st\<close> and no two of
  them the same one; \<open>replacedBy st items s s'\<close> says what saving the collection \<open>items\<close> does to
  store \<open>st\<close>: a non-empty list replaces the rows of the store, a missing or empty one leaves
  them; \<open>settingsReplacedBy es s s'\<close> says the same of the settings, which replace the rows of
  their store whenever the payload has them.
\<close>

definition wellKeyed :: "storeId \<Rightarrow> row list \<Rightarrow> bool" where
  "wellKeyed st items = (distinct (map (inlineKey st) items) \<and> None \<notin> set (map (inlineKey st) items))"

definition listOf :: "'a list option \<Rightarrow> 'a list" where
  "listOf xs = (case xs of None \<Rightarrow> [] | Some ys \<Rightarrow> ys)"

definition replacedBy :: "storeId \<Rightarrow> row list option \<Rightarrow> system \<Rightarrow> system \<Rightarrow> bool" where
  "replacedBy st items s s' =
     (case items of
        Some (x # xs) \<Rightarrow> set (rowsOf st s') = set (x # xs) \<and> wfStore st s'
      | _ \<Rightarrow> rowsOf st s' = rowsOf st s)"

definition settingsReplacedBy :: "(string \<times> string) list option \<Rightarrow> system \<Rightarrow> system \<Rightarrow> bool" where
  "settingsReplacedBy es s s' =
     (case es of
        Some en \<Rightarrow> set (settingRows s') = set (map (\<lambda>e. Setting (fst e) (snd e)) en) \<and> wfStore SETTINGS s'
      | None \<Rightarrow> settingRows s' = settingRows s)"

definition restorableSystem :: system where
  "restorableSystem = openSystem\<lparr>
     productRows := [Product 1 5 ''old''],
     saleRows := [Sale 7 10 None ''s''],
     settingRows := [Setting ''tax'' ''6''],
     backupRows := [Backup 50 ''manual''
                      (Payload (Some [Product 2 3 ''new'']) (Some [Sale 8 20 None ''t''])
                         (Some [(''tax'', ''5'')])) 3 None]\<rparr>"

definition restoreSystem :: system where
  "restoreSystem = openSystem\<lparr>
     productRows := [Product 1 5 ''old''],
     saleRows := [Sale 7 10 None ''s''],
     backupRows := [Backup 50 ''manual'' (Payload (Some [Product 2 3 ''new'']) (Some []) (Some [])) 3 None,
                    Backup 100 ''manual'' (Payload (Some []) (Some []) (Some [])) 3 None]\<rparr>"

section \<open>Auxiliary lemmas\<close>

lemma frame_refl [simp]: "frame s s"
  by (simp add: frame_def)

lemma frame_trans: "frame s s1 \<Longrightarrow> frame s1 s2 \<Longrightarrow> frame s s2"
  by (cases s; cases s1; cases s2) (simp add: frame_def)

lemma frame_fields:
  assumes "frame s s'"
  shows "db s' = db s" "auditStore s' = auditStore s" "productRows s' = productRows s"
    "saleRows s' = saleRows s" "settingRows s' = settingRows s" "backupRows s' = backupRows s"
    "defaultTTL s' = defaultTTL s" "maxSize s' = maxSize s" "lastSync s' = lastSync s"
    "syncInProgress s' = syncInProgress s" "systemData s' = systemData s" "lastSave s' = lastSave s"
    "migratedDate s' = migratedDate s" "backupData s' = backupData s" "backupLatest s' = backupLatest s"
    "loginUserId s' = loginUserId s" "loginUserName s' = loginUserName s"
  using assms by (cases s; cases s'; simp add: frame_def)+

lemma frame_cache_upd [simp]: "frame s (s'\<lparr>cache := c\<rparr>) = frame s s'"
  by (cases s; cases s') (simp add: frame_def)

lemma frame_inflight_upd [simp]: "frame s (s'\<lparr>inflight := c\<rparr>) = frame s s'"
  by (cases s; cases s') (simp add: frame_def)

lemma frame_auditRows_upd [simp]: "frame s (s'\<lparr>auditRows := c\<rparr>) = frame s s'"
  by (cases s; cases s') (simp add: frame_def)

lemma frame_nextAuditId_upd [simp]: "frame s (s'\<lparr>nextAuditId := c\<rparr>) = frame s s'"
  by (cases s; cases s') (simp add: frame_def)

lemma frame_invalidatePattern [simp]: "frame s (invalidatePattern p s') = frame s s'"
  by (simp add: invalidatePattern_def)

lemma frame_spawnAudit [simp]: "frame s (spawnAudit now a d s') = frame s s'"
  by (simp add: spawnAudit_def)

lemma frame_mutateCached [simp]: "frame s (mutateCached k f s') = frame s s'"
  by (simp add: mutateCached_def)

lemma frame_removeOldest [simp]: "frame s (removeOldest s') = frame s s'"
  by (simp add: removeOldest_def split: option.splits prod.splits)

lemma frame_execAdd_audit: "execAdd AUDIT_LOG e s = Inr (k, s') \<Longrightarrow> frame s s'"
  by (auto simp: execAdd_def bumpGenerator_def inlineKey_def split: option.splits if_splits key.splits)

lemma frame_completeAudit [simp]: "frame s (completeAudit now e s') = frame s s'"
proof (cases "execAdd AUDIT_LOG e s'")
  case (Inl a)
  then show ?thesis by (simp add: completeAudit_def)
next
  case (Inr b)
  obtain k s1 where b: "b = (k, s1)" by (cases b)
  have f: "frame s' s1" using Inr b by (auto intro: frame_execAdd_audit)
  have "frame s s1 = frame s s'"
    using f by (cases s; cases s'; cases s1) (auto simp add: frame_def)
  then show ?thesis using Inr b by (simp add: completeAudit_def)
qed

lemma frame_foldl_completeAudit [simp]:
  "frame s (foldl (\<lambda>s' e. completeAudit now e s') s0 es) = frame s s0"
  by (induction es arbitrary: s0) auto

lemma frame_settle [simp]: "frame s (settle now s') = frame s s'"
  by (simp add: settle_def)

lemma transaction_frame:
  "transaction now n s = Inr (st, s1) \<Longrightarrow> frame s s1 \<and> objectStore n s = Some st"
  by (auto simp: transaction_def split: option.splits)

lemma transaction_data:
  "st \<noteq> AUDIT_LOG \<Longrightarrow> objectStore n s = Some st \<Longrightarrow> transaction now n s = Inr (st, s)"
  by (simp add: transaction_def)

lemma getOrFetch_frame:
  assumes "\<And>s0. frame s0 (snd (fetch s0))"
  shows "frame s (snd (getOrFetch tc ts k fetch ttl s))"
proof -
  have "frame s (snd (fetch s))" by (rule assms)
  then show ?thesis
    by (auto simp: getOrFetch_def Let_def split: option.splits prod.splits sum.splits)
qed

lemma fetchOne_frame: "frame s (snd (fetchOne now n k s))"
  by (auto simp: fetchOne_def split: sum.splits prod.splits dest: transaction_frame)

lemma fetchAll_frame: "frame s (snd (fetchAll now n i r s))"
  by (auto simp: fetchAll_def split: sum.splits prod.splits option.splits dest: transaction_frame)

lemma get_frame: "frame s (snd (get now n k s))"
  unfolding get_def by (rule getOrFetch_frame) (rule fetchOne_frame)

lemma getAll_frame: "frame s (snd (getAll now n i r s))"
  unfolding getAll_def by (rule getOrFetch_frame) (rule fetchAll_frame)

lemma getStoreCount_frame: "frame s (snd (getStoreCount now n s))"
  by (auto simp: getStoreCount_def split: sum.splits prod.splits dest: transaction_frame)

lemma frame_eq: "frame a b \<Longrightarrow> frame s b = frame s a"
  by (cases s; cases a; cases b) (auto simp: frame_def)

lemma frameD: "frame a b \<Longrightarrow> \<forall>s0. frame s0 b = frame s0 a"
  by (simp add: frame_eq)

lemma getAll_frameD: "getAll now n i r s = (x, s1) \<Longrightarrow> \<forall>s0. frame s0 s1 = frame s0 s"
  using getAll_frame [of s now n i r] by (simp add: frame_eq)

lemma get_frameD: "get now n k s = (x, s1) \<Longrightarrow> \<forall>s0. frame s0 s1 = frame s0 s"
  using get_frame [of s now n k] by (simp add: frame_eq)

lemma getStoreCount_frameD: "getStoreCount now n s = (x, s1) \<Longrightarrow> \<forall>s0. frame s0 s1 = frame s0 s"
  using getStoreCount_frame [of s now n] by (simp add: frame_eq)

lemma transaction_frameD: "transaction now n s = Inr (st, s1) \<Longrightarrow> \<forall>s0. frame s0 s1 = frame s0 s"
  using transaction_frame [of now n s st s1] by (simp add: frame_eq)

lemma execAdd_audit_frameD: "execAdd AUDIT_LOG e s = Inr (k, s1) \<Longrightarrow> \<forall>s0. frame s0 s1 = frame s0 s"
  using frame_execAdd_audit [of e s k s1] by (simp add: frame_eq)

lemma objectStore_audit: "objectStore ''audit_log'' s = Some st \<Longrightarrow> st = AUDIT_LOG"
  by (auto simp: objectStore_def split: if_splits)

lemma add_audit_frame: "frame s (snd (add now ''audit_log'' r s))"
  by (auto simp: add_def split: sum.splits prod.splits
      dest!: transaction_frame objectStore_audit execAdd_audit_frameD)

lemma logAudit_frame: "frame s (snd (logAudit now a d s))"
  using add_audit_frame [of s now "newLogEntry now a d s"]
  by (auto simp: logAudit_def logAuditBody_def split: sum.splits prod.splits)

lemma logAudit_frameD: "logAudit now a d s = (x, s1) \<Longrightarrow> \<forall>s0. frame s0 s1 = frame s0 s"
  using logAudit_frame [of s now a d] by (simp add: frame_eq)

lemma getSystemData_frame: "frame s (snd (getSystemData now s))"
proof -
  obtain r1 s1 where 1: "getAll now ''products'' None None s = (r1, s1)" by fastforce
  obtain r2 s2 where 2: "getAll now ''sales'' None None s1 = (r2, s2)" by fastforce
  obtain r3 s3 where 3: "getAll now ''settings'' None None s2 = (r3, s3)" by fastforce
  have "frame s s3"
    using getAll_frameD [OF 1] getAll_frameD [OF 2] getAll_frameD [OF 3] by simp
  moreover have "snd (getSystemData now s) = s3"
    using 1 2 3 by (simp add: getSystemData_def split: sum.splits jsval.splits)
  ultimately show ?thesis by simp
qed

lemma getSystemData_frameD: "getSystemData now s = (x, s1) \<Longrightarrow> \<forall>s0. frame s0 s1 = frame s0 s"
  using getSystemData_frame [of s now] by (simp add: frame_eq)

lemma getBackups_frame: "frame s (snd (getBackups now ty s))"
proof -
  obtain r1 s1 where 1: "getAll now ''backups'' None None s = (r1, s1)" by fastforce
  have "frame s s1" using getAll_frameD [OF 1] by simp
  then show ?thesis
    using 1 by (simp add: getBackups_def split: sum.splits option.splits)
qed

lemma getLastBackupDate_frame: "frame s (snd (getLastBackupDate now s))"
proof -
  obtain bs s1 where 1: "getBackups now None s = (bs, s1)" by fastforce
  have "frame s s1" using getBackups_frame [of s now None] 1 by simp
  then show ?thesis using 1 by (simp add: getLastBackupDate_def split: list.splits)
qed

lemma getLastBackupDate_frameD: "getLastBackupDate now s = (x, s1) \<Longrightarrow> \<forall>s0. frame s0 s1 = frame s0 s"
  using getLastBackupDate_frame [of s now] by (simp add: frame_eq)

lemma getDatabaseInfo_frame: "frame s (snd (getDatabaseInfo now s))"
proof (cases "db s")
  case False
  then show ?thesis by (simp add: getDatabaseInfo_def)
next
  case True
  obtain c1 s1 where 1: "getStoreCount now ''products'' s = (c1, s1)" by fastforce
  obtain c2 s2 where 2: "getStoreCount now ''sales'' s1 = (c2, s2)" by fastforce
  obtain c3 s3 where 3: "getStoreCount now ''backups'' s2 = (c3, s3)" by fastforce
  obtain c4 s4 where 4: "getStoreCount now ''audit_log'' s3 = (c4, s4)" by fastforce
  obtain c5 s5 where 5: "getStoreCount now ''settings'' s4 = (c5, s5)" by fastforce
  obtain lb s6 where 6: "getLastBackupDate now s5 = (lb, s6)" by fastforce
  have f5: "frame s s5"
    using getStoreCount_frameD [OF 1] getStoreCount_frameD [OF 2] getStoreCount_frameD [OF 3]
      getStoreCount_frameD [OF 4] getStoreCount_frameD [OF 5] by simp
  have f6: "frame s s6" using f5 getLastBackupDate_frameD [OF 6] by simp
  have "snd (getDatabaseInfo now s) = s5 \<or> snd (getDatabaseInfo now s) = s6"
    using True 1 2 3 4 5 6 by (simp add: getDatabaseInfo_def split: sum.splits)
  then show ?thesis using f5 f6 by auto
qed

lemma getDatabaseInfo_frameD: "getDatabaseInfo now s = (x, s1) \<Longrightarrow> \<forall>s0. frame s0 s1 = frame s0 s"
  using getDatabaseInfo_frame [of s now] by (simp add: frame_eq)

lemma rowsOf_setRows [simp]: "rowsOf st (setRows st rs s) = rs"
  by (cases st) auto

lemma rowsOf_setRows_other [simp]: "st \<noteq> st' \<Longrightarrow> rowsOf st' (setRows st rs s) = rowsOf st' s"
  by (cases st; cases st') auto

lemma setRows_fields [simp]:
  "db (setRows st rs s) = db s" "auditStore (setRows st rs s) = auditStore s"
  "cache (setRows st rs s) = cache s" "inflight (setRows st rs s) = inflight s"
  "maxSize (setRows st rs s) = maxSize s" "defaultTTL (setRows st rs s) = defaultTTL s"
  "nextAuditId (setRows st rs s) = nextAuditId s"
  "syncInProgress (setRows st rs s) = syncInProgress s"
  by (cases st; simp)+

lemma rowsOf_simps [simp]:
  "rowsOf st (invalidatePattern p s) = rowsOf st s"
  "rowsOf st (spawnAudit now a d s) = rowsOf st s"
  "rowsOf st (mutateCached k f s) = rowsOf st s"
  "rowsOf st (s\<lparr>cache := c\<rparr>) = rowsOf st s"
  "rowsOf st (s\<lparr>inflight := i\<rparr>) = rowsOf st s"
  by (cases st; simp add: invalidatePattern_def spawnAudit_def mutateCached_def)+

lemma keysOf_simps [simp]:
  "keysOf st (invalidatePattern p s) = keysOf st s"
  "keysOf st (spawnAudit now a d s) = keysOf st s"
  "keysOf st (mutateCached k f s) = keysOf st s"
  "keysOf st (setRows st rs s) = map (inlineKey st) rs"
  by (simp_all add: keysOf_def)

lemma db_simps [simp]:
  "db (invalidatePattern p s) = db s" "db (spawnAudit now a d s) = db s"
  "db (mutateCached k f s) = db s"
  "auditStore (invalidatePattern p s) = auditStore s" "auditStore (spawnAudit now a d s) = auditStore s"
  "auditStore (mutateCached k f s) = auditStore s"
  by (simp_all add: invalidatePattern_def spawnAudit_def mutateCached_def)

lemma objectStore_simps [simp]:
  "objectStore n (invalidatePattern p s) = objectStore n s"
  "objectStore n (spawnAudit now a d s) = objectStore n s"
  "objectStore n (mutateCached k f s) = objectStore n s"
  "objectStore n (setRows st rs s) = objectStore n s"
  by (simp_all add: objectStore_def)

lemma objectStore_frame: "frame s s' \<Longrightarrow> objectStore n s' = objectStore n s"
  by (simp add: objectStore_def frame_fields)

lemma objectStore_storeName: "st \<noteq> AUDIT_LOG \<Longrightarrow> objectStore (storeName st) s = Some st"
  by (cases st) (simp_all add: objectStore_def)

lemma objectStore_names [simp]:
  "objectStore ''products'' s = Some PRODUCTS" "objectStore ''sales'' s = Some SALES"
  "objectStore ''settings'' s = Some SETTINGS" "objectStore ''backups'' s = Some BACKUPS"
  by (simp_all add: objectStore_def)

lemma frame_rowsOf: "frame s s' \<Longrightarrow> st \<noteq> AUDIT_LOG \<Longrightarrow> rowsOf st s' = rowsOf st s"
  by (cases st) (auto dest: frame_fields)

lemma frame_keysOf: "frame s s' \<Longrightarrow> st \<noteq> AUDIT_LOG \<Longrightarrow> keysOf st s' = keysOf st s"
  by (simp add: keysOf_def frame_rowsOf)

lemma frame_setRows: "st \<noteq> AUDIT_LOG \<Longrightarrow> frame s s' \<Longrightarrow> frame (setRows st rs s) (setRows st rs s')"
  by (cases st; cases s; cases s') (auto simp: frame_def)

lemma frameS_refl [simp]: "frameS st s s"
  by (cases st; cases s) (simp_all add: frameS_def frame_def)

lemma frame_frameS: "frame s s' \<Longrightarrow> frameS st s s'"
  by (cases st; cases s; cases s') (auto simp: frameS_def frame_def)

lemma frameS_trans: "frameS st s s1 \<Longrightarrow> frameS st s1 s2 \<Longrightarrow> frameS st s s2"
  by (cases st; cases s; cases s1; cases s2) (auto simp: frameS_def frame_def)

lemma frameS_other: "frameS st s s' \<Longrightarrow> st' \<noteq> st \<Longrightarrow> st' \<noteq> AUDIT_LOG \<Longrightarrow> rowsOf st' s' = rowsOf st' s"
  by (cases st; cases st'; cases s; cases s') (auto simp: frameS_def frame_def)

lemma frameS_frameD: "frameS st s s' \<Longrightarrow> frameD s s'"
  by (cases st; cases s; cases s') (auto simp: frameS_def frameD_def frame_def)

lemma frameD_refl [simp]: "frameD s s"
  by (cases s) (simp add: frameD_def frame_def)

lemma frameD_trans: "frameD s s1 \<Longrightarrow> frameD s1 s2 \<Longrightarrow> frameD s s2"
  by (cases s; cases s1; cases s2) (auto simp: frameD_def frame_def)

lemma frameD_fields:
  assumes "frameD s s'"
  shows "db s' = db s" "auditStore s' = auditStore s" "syncInProgress s' = syncInProgress s"
    "lastSync s' = lastSync s" "lastSave s' = lastSave s" "systemData s' = systemData s"
    "maxSize s' = maxSize s" "defaultTTL s' = defaultTTL s"
  using assms by (cases s; cases s'; simp add: frameD_def frame_def)+

lemma frameS_fields:
  assumes "frameS st s s'"
  shows "db s' = db s" "auditStore s' = auditStore s" "syncInProgress s' = syncInProgress s"
    "lastSync s' = lastSync s" "lastSave s' = lastSave s" "systemData s' = systemData s"
  using frameD_fields [OF frameS_frameD [OF assms]] by simp_all

lemma frameS_setRows_step:
  "st \<noteq> AUDIT_LOG \<Longrightarrow> frame (setRows st rs s) s' \<Longrightarrow> frameS st s s'"
  by (cases st; cases s; cases s') (auto simp: frameS_def frame_def)

text \<open>writers on a data store\<close>

lemma bumpGenerator_data [simp]: "st \<noteq> AUDIT_LOG \<Longrightarrow> bumpGenerator st k s = s"
  by (simp add: bumpGenerator_def split: key.splits)

lemma execAdd_fresh:
  "st \<noteq> AUDIT_LOG \<Longrightarrow> inlineKey st r = Some k \<Longrightarrow> Some k \<notin> set (keysOf st s) \<Longrightarrow>
   execAdd st r s = Inr (k, setRows st (insort_key (inlineKey st) r (rowsOf st s)) s)"
  by (simp add: execAdd_def)

lemma execAdd_taken:
  "inlineKey st r = Some k \<Longrightarrow> Some k \<in> set (keysOf st s) \<Longrightarrow> execAdd st r s = Inl ConstraintError"
  by (simp add: execAdd_def)

lemma add_fresh:
  assumes "db s" "objectStore n s = Some st" "st \<noteq> AUDIT_LOG" "inlineKey st r = Some k"
    "Some k \<notin> set (keysOf st s)"
  shows "add now n r s =
     (Inr k, spawnAudit now ''add'' (StoreId n (idOrKey r))
               (invalidatePattern n (setRows st (insort_key (inlineKey st) r (rowsOf st s)) s)))"
  using assms by (simp add: add_def transaction_data execAdd_fresh)

lemma add_taken:
  assumes "db s" "objectStore n s = Some st" "st \<noteq> AUDIT_LOG" "inlineKey st r = Some k"
    "Some k \<in> set (keysOf st s)"
  shows "add now n r s = (Inl ConstraintError, s)"
  using assms by (simp add: add_def transaction_data execAdd_taken)

lemma delete_data:
  assumes "db s" "objectStore n s = Some st" "st \<noteq> AUDIT_LOG"
  shows "delete now n k s =
     (Inr True, spawnAudit now ''delete'' (StoreId n (Some k))
        (invalidatePattern n
           (setRows st (filter (\<lambda>r. inlineKey st r \<noteq> Some k) (rowsOf st s)) s)))"
  using assms by (simp add: delete_def transaction_data execDelete_def)

lemma clearStore_data:
  assumes "db s" "objectStore n s = Some st" "st \<noteq> AUDIT_LOG"
  shows "clearStore now n s = (Inr True, invalidatePattern n (setRows st [] s))"
  using assms by (simp add: clearStore_def transaction_data)

lemma update_existing:
  assumes "db s" "objectStore n s = Some st" "st \<noteq> AUDIT_LOG" "inlineKey st r = Some k"
    "Some k \<in> set (keysOf st s)"
  shows "update now n r s =
     (Inr k, spawnAudit now ''update'' (StoreId n (idOrKey r))
        (invalidatePattern n
           (setRows st (map (\<lambda>x. if inlineKey st x = Some k then r else x) (rowsOf st s)) s)))"
  using assms by (simp add: update_def transaction_data execPut_def)

lemma inlineKey_eta: "inlineKey st = getProp (keyPath st)"
  by (rule ext) (simp add: inlineKey_def)

lemma fetchAll_data:
  assumes "db s" "st \<noteq> AUDIT_LOG"
  shows "fetchAll now (storeName st) None None s =
     (Inr (Arr (sort_key (inlineKey st) (filter (\<lambda>r. inlineKey st r \<noteq> None) (rowsOf st s)))), s)"
  using assms
  by (simp add: fetchAll_def transaction_data objectStore_storeName inRange_def inlineKey_eta)

lemma wf_allRows:
  "wfStore st s \<Longrightarrow> sort_key (inlineKey st) (filter (\<lambda>r. inlineKey st r \<noteq> None) (rowsOf st s)) = rowsOf st s"
proof -
  assume w: "wfStore st s"
  have "\<forall>r\<in>set (rowsOf st s). inlineKey st r \<noteq> None"
    using w by (force simp: wfStore_def keysOf_def)
  then have "filter (\<lambda>r. inlineKey st r \<noteq> None) (rowsOf st s) = rowsOf st s"
    by (intro filter_True) simp
  moreover have "sorted (map (inlineKey st) (rowsOf st s))"
    using w by (simp add: wfStore_def keysOf_def)
  ultimately show ?thesis by (simp add: sort_key_id_if_sorted)
qed

lemma getAll_value:
  assumes "cacheAgrees (allKey n i r) v s" "fst (fetchAll now n i r s) = Inr v"
  shows "fst (getAll now n i r s) = Inr v"
  using assms
  by (auto simp: getAll_def getOrFetch_def cacheAgrees_def Let_def split: option.splits prod.splits sum.splits)

lemma frame_spawn_inval_setRows:
  "st \<noteq> AUDIT_LOG \<Longrightarrow> frameS st s (spawnAudit now a d (invalidatePattern n (setRows st rs s)))"
  by (rule frameS_setRows_step [where rs = rs]) simp_all

lemma deleteAll_data:
  assumes "db s" "st \<noteq> AUDIT_LOG" "objectStore n s = Some st" "\<forall>r\<in>set rs. getProp p r \<noteq> None"
  shows "\<exists>s'. deleteAll now n p rs s = (Inr (), s') \<and>
           rowsOf st s' = filter (\<lambda>r. inlineKey st r \<notin> getProp p ` set rs) (rowsOf st s) \<and>
           frameS st s s'"
  using assms
proof (induction rs arbitrary: s)
  case Nil
  then show ?case by simp
next
  case (Cons r rs)
  obtain k where k: "getProp p r = Some k" using Cons.prems by auto
  let ?s1 = "spawnAudit now ''delete'' (StoreId n (Some k))
        (invalidatePattern n (setRows st (filter (\<lambda>r. inlineKey st r \<noteq> Some k) (rowsOf st s)) s))"
  have d: "delete now n k s = (Inr True, ?s1)"
    using Cons.prems by (intro delete_data) auto
  have "\<exists>s'. deleteAll now n p rs ?s1 = (Inr (), s') \<and>
           rowsOf st s' = filter (\<lambda>r. inlineKey st r \<notin> getProp p ` set rs) (rowsOf st ?s1) \<and>
           frameS st ?s1 s'"
    using Cons.prems by (intro Cons.IH) auto
  then obtain s' where s': "deleteAll now n p rs ?s1 = (Inr (), s')"
    "rowsOf st s' = filter (\<lambda>r. inlineKey st r \<notin> getProp p ` set rs) (rowsOf st ?s1)"
    "frameS st ?s1 s'" by blast
  have f: "frameS st s s'"
    using frame_spawn_inval_setRows [OF Cons.prems(2)] s'(3) by (blast intro: frameS_trans)
  have "rowsOf st s' = filter (\<lambda>x. inlineKey st x \<notin> getProp p ` set (r # rs)) (rowsOf st s)"
    using s'(2) k by (auto intro: filter_cong)
  then show ?case using d s'(1) f k by simp
qed

lemma filter_take_drop:
  assumes "distinct (map f xs)"
  shows "filter (\<lambda>r. f r \<notin> f ` set (take k xs)) xs = drop k xs"
proof -
  have d: "distinct (map f (take k xs) @ map f (drop k xs))"
    using assms by (simp flip: map_append)
  have 1: "filter (\<lambda>r. f r \<notin> f ` set (take k xs)) (take k xs) = []"
    by (simp add: filter_empty_conv)
  have 2: "filter (\<lambda>r. f r \<notin> f ` set (take k xs)) (drop k xs) = drop k xs"
    using d by (intro filter_True) auto
  have "filter (\<lambda>r. f r \<notin> f ` set (take k xs)) (take k xs @ drop k xs) = drop k xs"
    unfolding filter_append 1 2 by simp
  then show ?thesis by simp
qed

lemma timestamp_key: "getProp ''timestamp'' r = Some k \<Longrightarrow> k = Iso (timeOf r)"
  by (cases r) (auto split: if_splits)

lemma backup_keys:
  assumes "None \<notin> set (keysOf BACKUPS s)"
  shows "keysOf BACKUPS s = map (\<lambda>r. Some (Iso (timeOf r))) (backupRows s)"
proof -
  have "inlineKey BACKUPS r = Some (Iso (timeOf r))" if "r \<in> set (backupRows s)" for r
  proof -
    have "inlineKey BACKUPS r \<noteq> None" using assms that by (force simp: keysOf_def)
    then show ?thesis by (auto simp: inlineKey_def dest: timestamp_key)
  qed
  then show ?thesis by (simp add: keysOf_def)
qed

lemma sorted_Some_Iso: "sorted (map (\<lambda>r. Some (Iso (f r))) xs) = sorted (map f xs)"
  by (simp add: sorted_map)

lemma wf_backups_sorted: "wfStore BACKUPS s \<Longrightarrow> sorted (map timeOf (backupRows s))"
  using backup_keys [of s] by (simp add: wfStore_def sorted_Some_Iso)

lemma cleanupOldBackups_ok:
  assumes "db s" "wfStore BACKUPS s" "cacheAgrees (allKey ''backups'' None None) (Arr (backupRows s)) s"
  shows "backupRows (cleanupOldBackups now m s) = drop (length (backupRows s) - m) (backupRows s) \<and>
         frameS BACKUPS s (cleanupOldBackups now m s)"
proof -
  let ?rows = "backupRows s"
  obtain r s1 where g: "getAll now ''backups'' None None s = (r, s1)" by fastforce
  have fr: "frame s s1" using getAll_frameD [OF g] by simp
  have "fst (fetchAll now ''backups'' None None s) = Inr (Arr ?rows)"
    using fetchAll_data [of s BACKUPS now] wf_allRows [OF assms(2)] assms(1) by simp
  then have "fst (getAll now ''backups'' None None s) = Inr (Arr ?rows)"
    using assms(3) by (rule getAll_value [rotated])
  then have r: "r = Inr (Arr ?rows)" using g by simp
  show ?thesis
  proof (cases "m < length ?rows")
    case False
    then have "cleanupOldBackups now m s = s1"
      using g r by (simp add: cleanupOldBackups_def)
    then show ?thesis using False fr by (simp add: frame_fields frame_frameS)
  next
    case True
    let ?s2 = "mutateCached (allKey ''backups'' None None) (sort_key timeOf) s1"
    let ?rm = "take (length ?rows - m) (sort_key timeOf ?rows)"
    have srt: "sort_key timeOf ?rows = ?rows"
      using wf_backups_sorted [OF assms(2)] by (simp add: sort_key_id_if_sorted)
    have keys: "\<forall>x\<in>set ?rows. getProp ''timestamp'' x \<noteq> None"
      using assms(2) by (force simp: wfStore_def keysOf_def inlineKey_def)
    have "\<forall>x\<in>set ?rm. getProp ''timestamp'' x \<noteq> None"
      using keys srt by (auto dest: in_set_takeD)
    then have "\<exists>s'. deleteAll now ''backups'' ''timestamp'' ?rm ?s2 = (Inr (), s') \<and>
           rowsOf BACKUPS s' = filter (\<lambda>r. inlineKey BACKUPS r \<notin> getProp ''timestamp'' ` set ?rm) (rowsOf BACKUPS ?s2) \<and>
           frameS BACKUPS ?s2 s'"
      using assms(1) fr by (intro deleteAll_data) (simp_all add: frame_fields)
    then obtain s' where s': "deleteAll now ''backups'' ''timestamp'' ?rm ?s2 = (Inr (), s')"
      "rowsOf BACKUPS s' = filter (\<lambda>r. inlineKey BACKUPS r \<notin> getProp ''timestamp'' ` set ?rm) (rowsOf BACKUPS ?s2)"
      "frameS BACKUPS ?s2 s'" by blast
    have c: "cleanupOldBackups now m s = s'"
      using g r True s'(1) by (simp add: cleanupOldBackups_def)
    have "frame s ?s2" using fr by simp
    then have f: "frameS BACKUPS s s'" using s'(3) by (blast intro: frame_frameS frameS_trans)
    have "rowsOf BACKUPS ?s2 = ?rows" using fr by (simp add: frame_fields)
    then have "backupRows s' =
        filter (\<lambda>r. inlineKey BACKUPS r \<notin> inlineKey BACKUPS ` set (take (length ?rows - m) ?rows)) ?rows"
      using s'(2) srt by (simp add: inlineKey_eta)
    also have "\<dots> = drop (length ?rows - m) ?rows"
      using assms(2) by (intro filter_take_drop) (simp add: wfStore_def keysOf_def)
    finally show ?thesis using c f by simp
  qed
qed

lemma wfStore_rows:
  "wfStore st s = (sorted (map (inlineKey st) (rowsOf st s)) \<and> distinct (map (inlineKey st) (rowsOf st s))
      \<and> (\<forall>r\<in>set (rowsOf st s). inlineKey st r \<noteq> None))"
  by (auto simp: wfStore_def keysOf_def) force

lemma wfStore_cong: "rowsOf st s' = rowsOf st s \<Longrightarrow> wfStore st s' = wfStore st s"
  by (simp add: wfStore_rows)

lemma wfStore_insort:
  assumes "wfStore st s" "inlineKey st r = Some k" "Some k \<notin> set (keysOf st s)"
    "rowsOf st s' = insort_key (inlineKey st) r (rowsOf st s)"
  shows "wfStore st s'"
  using assms
  by (auto simp: wfStore_rows sorted_insort_key distinct_insort_key set_insort_key keysOf_def)

lemma wfStore_drop:
  assumes "wfStore st s" "rowsOf st s' = drop k (rowsOf st s)"
  shows "wfStore st s'"
  using assms
  by (auto simp: wfStore_rows simp flip: drop_map dest: in_set_dropD)

lemma isPrefix_append [simp]: "isPrefix p (p @ s)"
  by (induction p) auto

lemma str_includes_append [simp]: "str_includes (p @ s) p"
proof (cases "p @ s")
  case Nil
  then show ?thesis by simp
next
  case (Cons a list)
  have "isPrefix p (p @ s)" by simp
  then show ?thesis unfolding Cons by simp
qed

lemma str_includes_allKey [simp]: "str_includes (allKey n i r) n"
  by (simp add: allKey_def)

lemma cacheGet_None: "\<forall>e\<in>set es. fst e \<noteq> k \<Longrightarrow> cacheGet k es = None"
  by (induction es) auto

lemma cacheGet_invalidated:
  "str_includes k p \<Longrightarrow> cacheGet k (cache (invalidatePattern p s)) = None"
  by (rule cacheGet_None) (auto simp: invalidatePattern_def)

lemma cacheAgrees_invalidated:
  "str_includes k p \<Longrightarrow> cacheAgrees k v (spawnAudit now a d (invalidatePattern p s))"
  by (simp add: cacheAgrees_def spawnAudit_def cacheGet_invalidated)

lemma createBackup_ok:
  assumes "db s" "wfStore BACKUPS s" "Some (Iso now) \<notin> set (keysOf BACKUPS s)"
  shows "\<exists>d info s'. createBackup now ty dt s = (Some (Iso now), s') \<and>
      (case dt of Some d' \<Rightarrow> d = d' | None \<Rightarrow> d = fst (getSystemData now s)) \<and>
      backupRows s' =
        drop (Suc (length (backupRows s)) - 30)
          (insort_key (inlineKey BACKUPS) (Backup now ty d 3 info) (backupRows s)) \<and>
      frameS BACKUPS s s' \<and> wfStore BACKUPS s'"
proof -
  obtain d s1 where 1: "(case dt of Some d \<Rightarrow> (d, s) | None \<Rightarrow> getSystemData now s) = (d, s1)"
    by fastforce
  have f1: "frame s s1"
    using 1 getSystemData_frame [of s now] by (auto split: option.splits)
  have d: "case dt of Some d' \<Rightarrow> d = d' | None \<Rightarrow> d = fst (getSystemData now s)"
    using 1 by (auto split: option.splits)
  obtain info s2 where 2: "getDatabaseInfo now s1 = (info, s2)" by fastforce
  have f2: "frame s s2" using f1 getDatabaseInfo_frameD [OF 2] by simp
  let ?B = "Backup now ty d 3 info"
  let ?all = "insort_key (inlineKey BACKUPS) ?B (backupRows s)"
  let ?s3 = "spawnAudit now ''add'' (StoreId ''backups'' (idOrKey ?B))
               (invalidatePattern ''backups'' (setRows BACKUPS ?all s2))"
  have k: "inlineKey BACKUPS ?B = Some (Iso now)" by (simp add: inlineKey_def)
  have 3: "add now ''backups'' ?B s2 = (Inr (Iso now), ?s3)"
    using add_fresh [of s2 "''backups''" BACKUPS ?B "Iso now" now] assms f2 k
    by (simp add: frame_fields frame_keysOf)
  have w3: "wfStore BACKUPS ?s3"
    by (rule wfStore_insort [OF assms(2) k assms(3)]) simp
  have "backupRows (cleanupOldBackups now 30 ?s3) = drop (length (backupRows ?s3) - 30) (backupRows ?s3) \<and>
         frameS BACKUPS ?s3 (cleanupOldBackups now 30 ?s3)"
  proof (rule cleanupOldBackups_ok)
    show "db ?s3" using assms(1) f2 by (simp add: frame_fields)
    show "wfStore BACKUPS ?s3" by (rule w3)
    show "cacheAgrees (allKey ''backups'' None None) (Arr (backupRows ?s3)) ?s3"
      by (rule cacheAgrees_invalidated) simp
  qed
  moreover have b3: "backupRows ?s3 = ?all"
    using rowsOf_simps(2) [of BACKUPS] by (simp add: spawnAudit_def invalidatePattern_def)
  ultimately have c: "backupRows (cleanupOldBackups now 30 ?s3) = drop (Suc (length (backupRows s)) - 30) ?all"
    and fc: "frameS BACKUPS ?s3 (cleanupOldBackups now 30 ?s3)"
    by simp_all
  have "frameS BACKUPS s2 ?s3" by (rule frame_spawn_inval_setRows) simp
  then have fs: "frameS BACKUPS s (cleanupOldBackups now 30 ?s3)"
    using f2 fc by (blast intro: frame_frameS frameS_trans)
  have w: "wfStore BACKUPS (cleanupOldBackups now 30 ?s3)"
    using w3 by (rule wfStore_drop [where k = "Suc (length (backupRows s)) - 30"])
      (simp only: rowsOf.simps c b3)
  have "createBackup now ty dt s = (Some (Iso now), cleanupOldBackups now 30 ?s3)"
    using 1 2 3 by (simp add: createBackup_def)
  then show ?thesis using d c fs w by blast
qed

lemma insort_key_snoc: "\<forall>x\<in>set xs. f x < f a \<Longrightarrow> insort_key f a xs = xs @ [a]"
  by (induction xs) auto

lemma Iso_less [simp]: "(Iso a < Iso b) = (a < b)"
  by (auto simp: less_key_def)

lemma drop_window:
  "drop (length (drop (length ys - k) ys) + length ts - k) (drop (length ys - k) ys @ ts)
   = drop (length ys + length ts - k) (ys @ ts)"
proof (cases "length ys \<le> k")
  case True
  then show ?thesis by simp
next
  case False
  have a: "length (drop (length ys - k) ys) + length ts - k = length ts"
    using False by simp
  have b: "length ys + length ts - k = length ts + (length ys - k)"
    using False by simp
  have "drop (length ts + (length ys - k)) (ys @ ts) = drop (length ts) (drop (length ys - k) (ys @ ts))"
    by simp
  also have "\<dots> = drop (length ts) (drop (length ys - k) ys @ ts)"
    by simp
  finally show ?thesis unfolding a b by simp
qed

lemma createBackup_newest:
  assumes "db s" "wfStore BACKUPS s" "\<forall>b\<in>set (backupRows s). timeOf b < now"
  shows "\<exists>d info s'. createBackup now ty dt s = (Some (Iso now), s') \<and>
      (case dt of Some d' \<Rightarrow> d = d' | None \<Rightarrow> d = fst (getSystemData now s)) \<and>
      backupRows s' = drop (Suc (length (backupRows s)) - 30) (backupRows s @ [Backup now ty d 3 info]) \<and>
      frameS BACKUPS s s' \<and> wfStore BACKUPS s'"
proof -
  have n: "None \<notin> set (keysOf BACKUPS s)" using assms(2) by (simp add: wfStore_def)
  have keys: "keysOf BACKUPS s = map (\<lambda>r. Some (Iso (timeOf r))) (backupRows s)"
    using n by (rule backup_keys)
  have fresh: "Some (Iso now) \<notin> set (keysOf BACKUPS s)"
    using assms(3) by (auto simp: keys)
  have snoc: "insort_key (inlineKey BACKUPS) (Backup now ty d 3 info) (backupRows s)
      = backupRows s @ [Backup now ty d 3 info]" for d info
  proof (rule insort_key_snoc, rule ballI)
    fix x assume x: "x \<in> set (backupRows s)"
    have "inlineKey BACKUPS x = Some (Iso (timeOf x))"
      using x keys by (auto simp: keysOf_def)
    then show "inlineKey BACKUPS x < inlineKey BACKUPS (Backup now ty d 3 info)"
      using assms(3) x by (simp add: inlineKey_def)
  qed
  show ?thesis
    using createBackup_ok [OF assms(1,2) fresh, of ty dt] by (simp add: snoc)
qed

lemma createBackups_window:
  assumes "db s" "wfStore BACKUPS s" "sorted_wrt (<) ts"
    "\<forall>b\<in>set (backupRows s). \<forall>t\<in>set ts. timeOf b < t" "length (backupRows s) \<le> 30"
  shows "map timeOf (backupRows (createBackups ts ty s))
       = drop (length (backupRows s) + length ts - 30) (map timeOf (backupRows s) @ ts)"
  using assms
proof (induction ts arbitrary: s)
  case Nil
  then show ?case by simp
next
  case (Cons t ts)
  have "\<forall>b\<in>set (backupRows s). timeOf b < t" using Cons.prems(4) by simp
  from createBackup_newest [OF Cons.prems(1,2) this, of ty None]
  obtain d info s' where s': "createBackup t ty None s = (Some (Iso t), s')"
    "backupRows s' = drop (Suc (length (backupRows s)) - 30) (backupRows s @ [Backup t ty d 3 info])"
    "frameS BACKUPS s s'" "wfStore BACKUPS s'" by blast
  have db': "db s'" using s'(3) Cons.prems(1) by (simp add: frameS_fields)
  have m: "map timeOf (backupRows s') = drop (Suc (length (backupRows s)) - 30) (map timeOf (backupRows s) @ [t])"
    by (simp add: s'(2) drop_map)
  have old: "\<forall>b\<in>set (backupRows s'). \<forall>t'\<in>set ts. timeOf b < t'"
  proof (intro ballI)
    fix b t' assume b: "b \<in> set (backupRows s')" and t': "t' \<in> set ts"
    have "b \<in> set (backupRows s) \<or> b = Backup t ty d 3 info"
      using b s'(2) by (auto dest: in_set_dropD)
    then show "timeOf b < t'" using Cons.prems(3,4) t' by auto
  qed
  have "map timeOf (backupRows (createBackups ts ty s'))
       = drop (length (backupRows s') + length ts - 30) (map timeOf (backupRows s') @ ts)"
    using db' s'(4) Cons.prems(3) old by (intro Cons.IH) (simp_all add: s'(2))
  also have "\<dots> = drop (length (backupRows s) + length (t # ts) - 30) (map timeOf (backupRows s) @ t # ts)"
    using drop_window [of "map timeOf (backupRows s) @ [t]" 30 ts] m
    by (simp add: s'(2))
  finally show ?case using s'(1) by simp
qed

lemma frameD_eq: "frameD a b \<Longrightarrow> frameD s b = frameD s a"
  by (cases s; cases a; cases b) (auto simp: frameD_def frame_def)

lemma frame_frameD: "frame a b \<Longrightarrow> frameD a b"
  by (cases a; cases b) (auto simp: frameD_def frame_def)

lemma frameD_upd [simp]:
  "frameD s (invalidatePattern p s') = frameD s s'"
  "frameD s (spawnAudit now a d s') = frameD s s'"
  "frameD s (mutateCached k f s') = frameD s s'"
  "frameD s (setRows st rs s') = frameD s s'"
  by (rule frameD_eq, cases st; cases s'; simp add: frameD_def frame_def invalidatePattern_def spawnAudit_def mutateCached_def)+

lemma frameD_of_frame: "frame a b \<Longrightarrow> \<forall>s0. frameD s0 b = frameD s0 a"
  by (simp add: frameD_eq frame_frameD)

lemma execAdd_frameD: "execAdd st r s = Inr (k, s') \<Longrightarrow> frameD s s'"
  by (cases st; cases s)
     (auto simp: execAdd_def bumpGenerator_def frameD_def frame_def split: option.splits if_splits key.splits)

lemma execPut_frameD: "execPut st r s = Inr (k, s') \<Longrightarrow> frameD s s'"
  by (cases st; cases s)
     (auto simp: execPut_def execAdd_def bumpGenerator_def frameD_def frame_def split: option.splits if_splits key.splits)

lemma execAll_frameD: "execAll st rs s = Inr s' \<Longrightarrow> frameD s s'"
proof (induction rs arbitrary: s)
  case Nil
  then show ?case by simp
next
  case (Cons r rs)
  then show ?case
    by (auto split: sum.splits dest!: execAdd_frameD intro: frameD_trans)
qed

lemma transaction_frameD': "transaction now n s = Inr (st, s1) \<Longrightarrow> frameD s s1"
  by (auto dest!: transaction_frame intro: frame_frameD)

lemma add_frameD: "frameD s (snd (add now n r s))"
  by (auto simp: add_def split: sum.splits prod.splits
      dest!: transaction_frameD' execAdd_frameD intro: frameD_trans)

lemma update_frameD: "frameD s (snd (update now n r s))"
  by (auto simp: update_def split: sum.splits prod.splits
      dest!: transaction_frameD' execPut_frameD intro: frameD_trans)

lemma delete_frameD: "frameD s (snd (delete now n k s))"
  by (auto simp: delete_def execDelete_def split: sum.splits prod.splits
      dest!: transaction_frameD')

lemma clearStore_frameD: "frameD s (snd (clearStore now n s))"
  by (auto simp: clearStore_def split: sum.splits prod.splits dest!: transaction_frameD')

lemma bulkAdd_frameD: "frameD s (snd (bulkAdd now n items s))"
  by (auto simp: bulkAdd_def Let_def split: sum.splits prod.splits
      dest!: transaction_frameD' execAll_frameD intro: frameD_trans)

lemma deleteAll_frameD: "frameD s (snd (deleteAll now n p rs s))"
proof (induction rs arbitrary: s)
  case Nil
  then show ?case by simp
next
  case (Cons r rs)
  show ?case
  proof (cases "getProp p r")
    case None
    then show ?thesis by simp
  next
    case (Some k)
    obtain x s1 where d: "delete now n k s = (x, s1)" by fastforce
    have f: "frameD s s1" using delete_frameD [of s now n k] d by simp
    show ?thesis
    proof (cases x)
      case (Inl a)
      then show ?thesis using Some d f by simp
    next
      case (Inr b)
      then show ?thesis using Some d f Cons.IH [of s1] by (auto intro: frameD_trans)
    qed
  qed
qed

lemma repairStock_frameD: "frameD s (snd (repairStock now ps s))"
proof (induction ps arbitrary: s)
  case Nil
  then show ?case by simp
next
  case (Cons ip ps)
  obtain i p where ip: "ip = (i, p)" by (cases ip)
  let ?s0 = "mutateCached (allKey ''products'' None None) (\<lambda>xs. xs[i := clampStock p]) s"
  obtain x s1 where u: "update now ''products'' (clampStock p) ?s0 = (x, s1)" by fastforce
  have a: "frameD s ?s0" by simp
  have b: "frameD ?s0 s1"
    using update_frameD [of ?s0 now "''products''" "clampStock p"] u by simp
  have f: "frameD s s1" by (rule frameD_trans [OF a b])
  show ?case
  proof (cases x)
    case (Inl a)
    then show ?thesis using ip u f by simp
  next
    case (Inr b)
    then show ?thesis using ip u f Cons.IH [of s1] by (auto intro: frameD_trans)
  qed
qed

lemma getAll_frameD': "getAll now n i r s = (x, s1) \<Longrightarrow> frameD s s1"
  using getAll_frame [of s now n i r] by (auto intro: frame_frameD)

lemma cleanupOldBackups_frameD: "frameD s (cleanupOldBackups now m s)"
proof -
  obtain r s1 where g: "getAll now ''backups'' None None s = (r, s1)" by fastforce
  have f: "frameD s s1" using g by (rule getAll_frameD')
  let ?s2 = "mutateCached (allKey ''backups'' None None) (sort_key timeOf) s1"
  have "frameD s ?s2" using f by simp
  then have "frameD s (snd (deleteAll now ''backups'' ''timestamp'' xs ?s2))" for xs
    using deleteAll_frameD [of ?s2 now "''backups''" "''timestamp''" xs] by (blast intro: frameD_trans)
  then show ?thesis
    using g f by (simp add: cleanupOldBackups_def split: sum.splits option.splits)
qed

lemma createBackup_frameD: "frameD s (snd (createBackup now ty dt s))"
proof -
  obtain d s1 where 1: "(case dt of Some d \<Rightarrow> (d, s) | None \<Rightarrow> getSystemData now s) = (d, s1)"
    by fastforce
  have f1: "frameD s s1"
    using 1 getSystemData_frame [of s now] by (auto split: option.splits intro: frame_frameD)
  obtain info s2 where 2: "getDatabaseInfo now s1 = (info, s2)" by fastforce
  have f2: "frameD s s2"
    using f1 getDatabaseInfo_frame [of s1 now] 2 by (auto intro: frame_frameD frameD_trans)
  obtain x s3 where 3: "add now ''backups'' (Backup now ty d 3 info) s2 = (x, s3)" by fastforce
  have f3: "frameD s s3"
    using f2 add_frameD [of s2 now "''backups''" "Backup now ty d 3 info"] 3
    by (auto intro: frameD_trans)
  have f4: "frameD s (cleanupOldBackups now 30 s3)"
    using f3 cleanupOldBackups_frameD [of s3 now 30] by (blast intro: frameD_trans)
  show ?thesis
    using 1 2 3 f3 f4 by (simp add: createBackup_def split: sum.splits)
qed

lemma logAudit_keeps_data: "frameD s (snd (logAudit now a d s))"
  using logAudit_frame [of s now a d] by (rule frame_frameD)

lemma getSalesByDateRange_frame: "frame s (snd (getSalesByDateRange now a b s))"
  using getAll_frame [of s now "''sales''" "Some ''date''" "Some (a, b)"]
  by (auto simp: getSalesByDateRange_def split: sum.splits prod.splits)

lemma cleanupOldData_frameD: "frameD s (cleanupOldData now c s)"
proof -
  obtain v s1 where g: "getSalesByDateRange now (Iso 0) (Iso c) s = (v, s1)" by fastforce
  have f1: "frameD s s1" using getSalesByDateRange_frame [of s now "Iso 0" "Iso c"] g
    by (auto intro: frame_frameD)
  have "frameD s (snd (deleteAll now ''sales'' ''id'' xs (snd (createBackup now ''archive'' dt s1))))" for xs dt
    using f1 createBackup_frameD [of s1 now "''archive''" dt]
      deleteAll_frameD [of "snd (createBackup now ''archive'' dt s1)" now "''sales''" "''id''" xs]
    by (blast intro: frameD_trans)
  then show ?thesis
    using g f1 by (auto simp: cleanupOldData_def simp del: deleteAll.simps
        split: jsval.splits list.splits prod.splits)
      (metis snd_conv)
qed

lemma checkDataIntegrity_frameD: "frameD s (snd (checkDataIntegrity now s))"
proof -
  obtain r1 s1 where 1: "getAll now ''products'' None None s = (r1, s1)" by fastforce
  obtain r2 s2 where 2: "getAll now ''sales'' None None s1 = (r2, s2)" by fastforce
  have f2: "frameD s s2" using getAll_frameD' [OF 1] getAll_frameD' [OF 2] by (rule frameD_trans)
  have f3: "frameD s y" if "repairStock now ps s2 = (x, y)" for ps x y
    using f2 repairStock_frameD [of s2 now ps] that by (auto intro: frameD_trans)
  have f4: "frameD s (snd (logAudit now a d y))" if "repairStock now ps s2 = (x, y)" for ps a d x y
    using f3 [OF that] logAudit_keeps_data by (rule frameD_trans)
  have f5: "frameD s (snd (logAudit now a d s2))" for a d
    using f2 logAudit_keeps_data by (rule frameD_trans)
  show ?thesis
    using 1 2 f2
    by (auto simp: checkDataIntegrity_def Let_def split: sum.splits option.splits prod.splits
        intro: f3 f4 f5)
qed

lemma syncTry_flag: "syncInProgress (syncTry t1 t2 t3 t4 c s) = syncInProgress s"
proof -
  obtain issues s1 where 1: "checkDataIntegrity t1 s = (issues, s1)" by fastforce
  have f1: "frameD s s1" using checkDataIntegrity_frameD [of s t1] 1 by simp
  let ?s2 = "if hasChangesSinceLastSync s1 then snd (createBackup t2 ''auto_sync'' None s1) else s1"
  have f2: "frameD s ?s2"
    using f1 createBackup_frameD [of s1 t2 "''auto_sync''" None] by (auto intro: frameD_trans)
  have "frameD s (cleanupOldData t3 c ?s2)"
    using f2 cleanupOldData_frameD by (rule frameD_trans)
  then show ?thesis using 1 by (simp add: syncTry_def frameD_fields)
qed


lemma clampStock_key [simp]: "getProp p (clampStock r) = getProp p r"
  by (cases r) simp_all

lemma clampStock_inlineKey [simp]: "inlineKey st (clampStock r) = inlineKey st r"
  by (simp add: inlineKey_def)

lemma clampStock_id: "\<not> negativeStock r \<Longrightarrow> clampStock r = r"
  by (cases r) (simp_all add: negativeStock_def)

lemma clampStock_nonneg [simp]: "\<not> negativeStock (clampStock r)"
  by (cases r) (simp_all add: negativeStock_def)

lemma negativeStock_key: "negativeStock r \<Longrightarrow> \<exists>i. inlineKey PRODUCTS r = Some (Num i)"
  by (cases r) (simp_all add: negativeStock_def inlineKey_def)

lemma getAll_cacheOnly:
  assumes "n \<noteq> ''audit_log''"
  shows "\<exists>c. snd (getAll now n i r s) = s\<lparr>cache := c\<rparr>"
proof -
  have t: "transaction now n s = Inr (st, s1) \<Longrightarrow> s1 = s" for st s1
    using assms by (auto simp: transaction_def objectStore_def split: option.splits if_splits)
  have f: "snd (fetchAll now n i r s) = s"
    using t by (auto simp: fetchAll_def split: sum.splits option.splits)
  have c: "s\<lparr>cache := cache s\<rparr> = s" by simp
  obtain x where x: "fetchAll now n i r s = (x, s)" using f by (metis prod.collapse)
  show ?thesis
    using x c
    by (cases x) (auto simp: getAll_def getOrFetch_def removeOldest_def Let_def
        split: option.splits prod.splits intro: exI [of _ "cache s"])
qed

text \<open>replacing rows by key\<close>

lemma replace_by_key:
  assumes "distinct (map f rows)" "set qs \<subseteq> set rows" "\<And>q. f (g q) = f q"
  shows "foldl (\<lambda>rs q. map (\<lambda>x. if f x = f q then g q else x) rs) rows qs
       = map (\<lambda>x. if x \<in> set qs then g x else x) rows"
  using assms(2)
proof (induction qs rule: rev_induct)
  case Nil
  then show ?case by simp
next
  case (snoc q qs)
  have inj: "inj_on f (set rows)" using assms(1) by (simp add: distinct_map)
  have q: "q \<in> set rows" using snoc.prems by simp
  have "foldl (\<lambda>rs q. map (\<lambda>x. if f x = f q then g q else x) rs) rows (qs @ [q])
      = map (\<lambda>x. if f x = f q then g q else x) (map (\<lambda>x. if x \<in> set qs then g x else x) rows)"
    using snoc by simp
  also have "\<dots> = map (\<lambda>x. if x \<in> set (qs @ [q]) then g x else x) rows"
    using inj q assms(3) by (auto simp: inj_on_def)
  finally show ?case .
qed

lemma repairStock_rows:
  assumes "db s" "\<forall>ip\<in>set ips. \<exists>k. inlineKey PRODUCTS (snd ip) = Some k \<and> Some k \<in> set (keysOf PRODUCTS s)"
  shows "\<exists>s'. repairStock now ips s = (Inr (), s') \<and>
           productRows s' =
             foldl (\<lambda>rs q. map (\<lambda>x. if inlineKey PRODUCTS x = inlineKey PRODUCTS q then clampStock q else x) rs)
               (productRows s) (map snd ips)"
  using assms
proof (induction ips arbitrary: s)
  case Nil
  then show ?case by simp
next
  case (Cons ip ips)
  obtain i p where ip: "ip = (i, p)" by (cases ip)
  obtain k where k: "inlineKey PRODUCTS p = Some k" "Some k \<in> set (keysOf PRODUCTS s)"
    using Cons.prems(2) ip by auto
  let ?m = "mutateCached (allKey ''products'' None None) (\<lambda>xs. xs[i := clampStock p]) s"
  let ?rows = "map (\<lambda>x. if inlineKey PRODUCTS x = Some k then clampStock p else x) (productRows s)"
  let ?s1 = "spawnAudit now ''update'' (StoreId ''products'' (idOrKey (clampStock p)))
               (invalidatePattern ''products'' (setRows PRODUCTS ?rows ?m))"
  have u: "update now ''products'' (clampStock p) ?m = (Inr k, ?s1)"
    using update_existing [of ?m "''products''" PRODUCTS "clampStock p" k now] Cons.prems(1) k
    by simp
  have keys: "keysOf PRODUCTS ?s1 = keysOf PRODUCTS s"
    using k by (simp add: keysOf_def comp_def)
  have rows: "productRows ?s1 = ?rows"
    using rowsOf_simps(1,2) [of PRODUCTS] rowsOf_setRows [of PRODUCTS] by (metis rowsOf.simps(1))
  have "db ?s1" using Cons.prems(1) by simp
  moreover have "\<forall>ip\<in>set ips. \<exists>k. inlineKey PRODUCTS (snd ip) = Some k \<and> Some k \<in> set (keysOf PRODUCTS ?s1)"
    using Cons.prems(2) keys by simp
  ultimately obtain s' where s': "repairStock now ips ?s1 = (Inr (), s')"
    "productRows s' =
       foldl (\<lambda>rs q. map (\<lambda>x. if inlineKey PRODUCTS x = inlineKey PRODUCTS q then clampStock q else x) rs)
         (productRows ?s1) (map snd ips)"
    using Cons.IH [of ?s1] by blast
  show ?case
    using s' u rows k(1) by (simp add: ip)
qed

lemma transaction_names [simp]:
  "transaction now ''products'' s = Inr (PRODUCTS, s)" "transaction now ''sales'' s = Inr (SALES, s)"
  "transaction now ''settings'' s = Inr (SETTINGS, s)" "transaction now ''backups'' s = Inr (BACKUPS, s)"
  by (simp_all add: transaction_def)

lemma update_products_frameS: "frameS PRODUCTS s (snd (update now ''products'' r s))"
proof (cases "db s")
  case False
  then show ?thesis by (simp add: update_def)
next
  case True
  show ?thesis
  proof (cases "execPut PRODUCTS r s")
    case (Inl e)
    then show ?thesis using True by (simp add: update_def)
  next
    case (Inr ks)
    obtain k s' where ks: "ks = (k, s')" by (cases ks)
    have "\<exists>rs. s' = setRows PRODUCTS rs s"
      using Inr ks by (auto simp: execPut_def execAdd_def split: option.splits if_splits)
    then obtain rs where rs: "s' = setRows PRODUCTS rs s" ..
    show ?thesis
      using True Inr ks rs frame_spawn_inval_setRows [of PRODUCTS s now "''update''" _ "''products''" rs]
      by (simp add: update_def)
  qed
qed

lemma repairStock_frameS: "frameS PRODUCTS s (snd (repairStock now ips s))"
proof (induction ips arbitrary: s)
  case Nil
  then show ?case by simp
next
  case (Cons ip ips)
  obtain i p where ip: "ip = (i, p)" by (cases ip)
  let ?m = "mutateCached (allKey ''products'' None None) (\<lambda>xs. xs[i := clampStock p]) s"
  have a: "frameS PRODUCTS s ?m" by (rule frame_frameS) simp
  have b: "frameS PRODUCTS ?m (snd (update now ''products'' (clampStock p) ?m))"
    by (rule update_products_frameS)
  have ab: "frameS PRODUCTS s (snd (update now ''products'' (clampStock p) ?m))"
    by (rule frameS_trans [OF a b])
  show ?case
  proof (cases "update now ''products'' (clampStock p) ?m")
    case (Pair x s1)
    show ?thesis
    proof (cases x)
      case (Inl e)
      then show ?thesis using Pair ab by (simp add: ip)
    next
      case (Inr k)
      have "frameS PRODUCTS s1 (snd (repairStock now ips s1))" by (rule Cons.IH)
      then have "frameS PRODUCTS s (snd (repairStock now ips s1))"
        using ab Pair frameS_trans by fastforce
      then show ?thesis using Pair Inr by (simp add: ip)
    qed
  qed
qed

lemma repairStock_ok:
  assumes "db s" "\<forall>ip\<in>set ips. negativeStock (snd ip)"
  shows "fst (repairStock now ips s) = Inr ()"
  using assms
proof (induction ips arbitrary: s)
  case Nil
  then show ?case by simp
next
  case (Cons ip ips)
  obtain i p where ip: "ip = (i, p)" by (cases ip)
  let ?m = "mutateCached (allKey ''products'' None None) (\<lambda>xs. xs[i := clampStock p]) s"
  obtain j where j: "inlineKey PRODUCTS p = Some (Num j)"
    using Cons.prems(2) ip negativeStock_key by fastforce
  have "fst (update now ''products'' (clampStock p) ?m) = Inr (Num j)"
    using Cons.prems(1) j by (simp add: update_def execPut_def)
  then obtain s1 where s1: "update now ''products'' (clampStock p) ?m = (Inr (Num j), s1)"
    by (metis prod.collapse)
  have "db s1"
    using update_frameD [of ?m now "''products''" "clampStock p"] s1 Cons.prems(1)
    by (auto dest: frameD_fields(1))
  then have "fst (repairStock now ips s1) = Inr ()"
    using Cons.IH Cons.prems(2) by simp
  then show ?case using s1 by (simp add: ip)
qed

lemma neg_snd:
  "map snd (filter (\<lambda>ip. negativeStock (snd ip)) (zip [0 ..< length ps] ps)) = filter negativeStock ps"
proof -
  have "filter negativeStock (map snd (zip [0 ..< length ps] ps))
      = map snd (filter (negativeStock \<circ> snd) (zip [0 ..< length ps] ps))"
    by (rule filter_map)
  then show ?thesis by (simp add: comp_def)
qed

lemma neg_empty:
  "(filter (\<lambda>ip. negativeStock (snd ip)) (zip [0 ..< length ps] ps) = []) = (filter negativeStock ps = [])"
  using neg_snd [of ps] by (metis map_is_Nil_conv)

lemma neg_length:
  "length (filter (\<lambda>ip. negativeStock (snd ip)) (zip [0 ..< length ps] ps)) = length (filter negativeStock ps)"
  using neg_snd [of ps] by (metis length_map)

lemma checkDataIntegrity_run:
  assumes "db s"
    and "getAll now ''products'' None None s = (Inr (Arr ps), s1)"
    and "getAll now ''sales'' None None s1 = (Inr (Arr ss), s2)"
  shows "\<exists>s3 issues.
      repairStock now (filter (\<lambda>ip. negativeStock (snd ip)) (zip [0 ..< length ps] ps)) s2 = (Inr (), s3) \<and>
      issues =
        (if filter negativeStock ps \<noteq> []
         then [showNat (length (filter negativeStock ps)) @ '' produtos com estoque negativo''] else [])
        @ (if filter emptySale ss \<noteq> []
           then [showNat (length (filter emptySale ss)) @ '' vendas sem itens''] else [])
        @ (if duplicates [] (map (getProp ''id'') ps) \<noteq> []
           then [showNat (length (duplicates [] (map (getProp ''id'') ps))) @ '' IDs de produto duplicados'']
           else []) \<and>
      checkDataIntegrity now s =
        (issues,
         if issues \<noteq> []
         then snd (logAudit now ''integrity_check''
                (IntegrityInfo issues (if filter negativeStock ps \<noteq> [] then ''negative_stock'' else ''none'')) s3)
         else s3)"
proof -
  let ?neg = "filter (\<lambda>ip. negativeStock (snd ip)) (zip [0 ..< length ps] ps)"
  have d1: "db s1" using getAll_frameD' [OF assms(2)] assms(1) by (simp add: frameD_fields)
  have d2: "db s2" using getAll_frameD' [OF assms(3)] d1 by (simp add: frameD_fields)
  have "fst (repairStock now ?neg s2) = Inr ()"
    using d2 by (intro repairStock_ok) auto
  then obtain s3 where s3: "repairStock now ?neg s2 = (Inr (), s3)" by (metis prod.collapse)
  show ?thesis
    using s3 assms(2,3)
    by (simp add: checkDataIntegrity_def Let_def neg_empty neg_length del: repairStock.simps)
qed

lemma getAll_coherent:
  assumes "db s" "st \<noteq> AUDIT_LOG" "wfStore st s"
    "cacheAgrees (allKey (storeName st) None None) (Arr (rowsOf st s)) s"
  shows "fst (getAll now (storeName st) None None s) = Inr (Arr (rowsOf st s))"
proof -
  have "fetchAll now (storeName st) None None s = (Inr (Arr (rowsOf st s)), s)"
    using fetchAll_data [OF assms(1,2), of now] wf_allRows [OF assms(3)] by simp
  then show ?thesis using assms(4) by (intro getAll_value) simp_all
qed

lemma checkDataIntegrity_frameS: "frameS PRODUCTS s (snd (checkDataIntegrity now s))"
proof -
  obtain r1 s1 where 1: "getAll now ''products'' None None s = (r1, s1)" by fastforce
  obtain r2 s2 where 2: "getAll now ''sales'' None None s1 = (r2, s2)" by fastforce
  have f1: "frame s s1" using getAll_frame [of s now "''products''" None None] 1 by simp
  have f2: "frame s1 s2" using getAll_frame [of s1 now "''sales''" None None] 2 by simp
  have f: "frameS PRODUCTS s s2" using frame_trans [OF f1 f2] by (rule frame_frameS)
  have g: "frameS PRODUCTS s (snd (repairStock now ips s2))" for ips
    using f repairStock_frameS by (rule frameS_trans)
  have h: "frameS PRODUCTS s (snd (logAudit now a d (snd (repairStock now ips s2))))" for ips a d
    using g frame_frameS [OF logAudit_frame] by (rule frameS_trans)
  have g': "repairStock now ips s2 = (x, y) \<Longrightarrow> frameS PRODUCTS s y" for ips x y
    using g [of ips] by simp
  have h': "repairStock now ips s2 = (x, y) \<Longrightarrow> frameS PRODUCTS s (snd (logAudit now a d y))" for ips x y a d
    using h [of a d ips] by simp
  show ?thesis
    using 1 2 f
    by (auto simp: checkDataIntegrity_def Let_def simp del: repairStock.simps
        split: sum.splits option.splits prod.splits dest: g' intro: h')
qed

lemma checkDataIntegrity_parts:
  assumes "db s"
    and "getAll now ''products'' None None s = (Inr (Arr ps), s1)"
    and "getAll now ''sales'' None None s1 = (Inr (Arr ss), s2)"
  shows "fst (checkDataIntegrity now s) =
           (if filter negativeStock ps \<noteq> []
            then [showNat (length (filter negativeStock ps)) @ '' produtos com estoque negativo'']
            else [])
         @ (if filter emptySale ss \<noteq> []
            then [showNat (length (filter emptySale ss)) @ '' vendas sem itens''] else [])
         @ (if duplicates [] (map (getProp ''id'') ps) \<noteq> []
            then [showNat (length (duplicates [] (map (getProp ''id'') ps)))
                  @ '' IDs de produto duplicados'']
            else [])"
    and "saleRows (snd (checkDataIntegrity now s)) = saleRows s"
    and "filter negativeStock ps = [] \<longrightarrow> productRows (snd (checkDataIntegrity now s)) = productRows s"
    and "wfStore PRODUCTS s \<and> cacheAgrees (allKey ''products'' None None) (Arr (productRows s)) s \<longrightarrow>
           ps = productRows s \<and>
           productRows (snd (checkDataIntegrity now s)) = map clampStock (productRows s)"
    and "fst (checkDataIntegrity now s) = [] \<longrightarrow>
           auditRows (snd (checkDataIntegrity now s)) = auditRows s \<and>
           inflight (snd (checkDataIntegrity now s)) = inflight s"
proof -
  let ?neg = "filter (\<lambda>ip. negativeStock (snd ip)) (zip [0 ..< length ps] ps)"
  obtain s3 issues where run:
    "repairStock now ?neg s2 = (Inr (), s3)"
    "issues =
        (if filter negativeStock ps \<noteq> []
         then [showNat (length (filter negativeStock ps)) @ '' produtos com estoque negativo''] else [])
        @ (if filter emptySale ss \<noteq> []
           then [showNat (length (filter emptySale ss)) @ '' vendas sem itens''] else [])
        @ (if duplicates [] (map (getProp ''id'') ps) \<noteq> []
           then [showNat (length (duplicates [] (map (getProp ''id'') ps))) @ '' IDs de produto duplicados'']
           else [])"
    "checkDataIntegrity now s =
        (issues,
         if issues \<noteq> []
         then snd (logAudit now ''integrity_check''
                (IntegrityInfo issues (if filter negativeStock ps \<noteq> [] then ''negative_stock'' else ''none'')) s3)
         else s3)"
    using checkDataIntegrity_run [OF assms] by blast
  show "fst (checkDataIntegrity now s) =
           (if filter negativeStock ps \<noteq> []
            then [showNat (length (filter negativeStock ps)) @ '' produtos com estoque negativo'']
            else [])
         @ (if filter emptySale ss \<noteq> []
            then [showNat (length (filter emptySale ss)) @ '' vendas sem itens''] else [])
         @ (if duplicates [] (map (getProp ''id'') ps) \<noteq> []
            then [showNat (length (duplicates [] (map (getProp ''id'') ps)))
                  @ '' IDs de produto duplicados'']
            else [])"
    using run(2,3) by simp
  have fS: "frameS PRODUCTS s (snd (checkDataIntegrity now s))" by (rule checkDataIntegrity_frameS)
  show "saleRows (snd (checkDataIntegrity now s)) = saleRows s"
    using frameS_other [OF fS, of SALES] by simp
  have f1: "frame s s1" using getAll_frame [of s now "''products''" None None] assms(2) by simp
  have f2: "frame s1 s2" using getAll_frame [of s1 now "''sales''" None None] assms(3) by simp
  have f12: "frame s s2" using f1 f2 by (rule frame_trans)
  have rows2: "productRows s2 = productRows s" using f12 by (simp add: frame_fields)
  have rows': "productRows (snd (checkDataIntegrity now s)) = productRows s3"
    using run(3) frame_fields(3) [OF logAudit_frame] by simp
  show "filter negativeStock ps = [] \<longrightarrow> productRows (snd (checkDataIntegrity now s)) = productRows s"
  proof
    assume "filter negativeStock ps = []"
    then have "?neg = []" by (simp add: neg_empty)
    then have "s3 = s2" using run(1) by simp
    then show "productRows (snd (checkDataIntegrity now s)) = productRows s"
      using rows' rows2 by simp
  qed
  show "wfStore PRODUCTS s \<and> cacheAgrees (allKey ''products'' None None) (Arr (productRows s)) s \<longrightarrow>
           ps = productRows s \<and>
           productRows (snd (checkDataIntegrity now s)) = map clampStock (productRows s)"
  proof (intro impI, elim conjE)
    assume wf: "wfStore PRODUCTS s"
      and co: "cacheAgrees (allKey ''products'' None None) (Arr (productRows s)) s"
    have ps: "ps = productRows s"
      using getAll_coherent [of s PRODUCTS now] assms(1,2) wf co by simp
    have d2: "db s2" using f12 assms(1) by (simp add: frame_fields)
    have keys2: "keysOf PRODUCTS s2 = keysOf PRODUCTS s" using rows2 by (simp add: keysOf_def)
    have dist: "distinct (map (inlineKey PRODUCTS) (productRows s))"
      and nn: "\<forall>r\<in>set (productRows s). inlineKey PRODUCTS r \<noteq> None"
      using wf by (simp_all add: wfStore_rows)
    have sub: "set (map snd ?neg) \<subseteq> set ps" by (simp add: neg_snd)
    have "\<forall>ip\<in>set ?neg. \<exists>k. inlineKey PRODUCTS (snd ip) = Some k \<and> Some k \<in> set (keysOf PRODUCTS s2)"
    proof
      fix ip assume "ip \<in> set ?neg"
      then have "snd ip \<in> set (productRows s)" using sub ps by auto
      then show "\<exists>k. inlineKey PRODUCTS (snd ip) = Some k \<and> Some k \<in> set (keysOf PRODUCTS s2)"
        using nn keys2 by (force simp: keysOf_def)
    qed
    from repairStock_rows [OF d2 this, of now] run(1)
    have "productRows s3 =
        foldl (\<lambda>rs q. map (\<lambda>x. if inlineKey PRODUCTS x = inlineKey PRODUCTS q then clampStock q else x) rs)
          (productRows s) (filter negativeStock (productRows s))"
      by (simp add: neg_snd rows2 ps)
    also have "\<dots> = map (\<lambda>x. if x \<in> set (filter negativeStock (productRows s)) then clampStock x else x)
                      (productRows s)"
      using dist by (intro replace_by_key) simp_all
    also have "\<dots> = map clampStock (productRows s)"
      by (rule map_cong) (auto simp: clampStock_id)
    finally show "ps = productRows s \<and>
           productRows (snd (checkDataIntegrity now s)) = map clampStock (productRows s)"
      using ps rows' by simp
  qed
  show "fst (checkDataIntegrity now s) = [] \<longrightarrow>
           auditRows (snd (checkDataIntegrity now s)) = auditRows s \<and>
           inflight (snd (checkDataIntegrity now s)) = inflight s"
  proof
    assume e: "fst (checkDataIntegrity now s) = []"
    then have i: "issues = []" using run(3) by simp
    then have "filter negativeStock ps = []" using run(2) by (auto split: if_splits)
    then have "?neg = []" by (simp add: neg_empty)
    then have "s3 = s2" using run(1) by simp
    then have s': "snd (checkDataIntegrity now s) = s2" using run(3) i by simp
    obtain c1 where c1: "s1 = s\<lparr>cache := c1\<rparr>"
      using getAll_cacheOnly [of "''products''" now None None s] assms(2) by auto
    obtain c2 where c2: "s2 = s1\<lparr>cache := c2\<rparr>"
      using getAll_cacheOnly [of "''sales''" now None None s1] assms(3) by auto
    show "auditRows (snd (checkDataIntegrity now s)) = auditRows s \<and>
           inflight (snd (checkDataIntegrity now s)) = inflight s"
      using s' c1 c2 by simp
  qed
qed

lemma createBackup_taken:
  assumes "db s" "Some (Iso now) \<in> set (keysOf BACKUPS s)"
  shows "fst (createBackup now ty dt s) = None \<and> frame s (snd (createBackup now ty dt s))"
proof -
  obtain d s1 where 1: "(case dt of Some d \<Rightarrow> (d, s) | None \<Rightarrow> getSystemData now s) = (d, s1)"
    by fastforce
  have f1: "frame s s1"
    using 1 getSystemData_frame [of s now] by (auto split: option.splits)
  obtain info s2 where 2: "getDatabaseInfo now s1 = (info, s2)" by fastforce
  have f2: "frame s1 s2" using getDatabaseInfo_frame [of s1 now] 2 by simp
  have f: "frame s s2" using f1 f2 by (rule frame_trans)
  have d2: "db s2" using f assms(1) by (simp add: frame_fields)
  have k2: "Some (Iso now) \<in> set (keysOf BACKUPS s2)"
    using frame_keysOf [OF f, of BACKUPS] assms(2) by simp
  have "add now ''backups'' (Backup now ty d 3 info) s2 = (Inl ConstraintError, s2)"
    using d2 k2 by (intro add_taken [where st = BACKUPS and k = "Iso now"]) (simp_all add: inlineKey_def)
  then have "createBackup now ty dt s = (None, s2)"
    using 1 2 by (simp add: createBackup_def)
  then show ?thesis using f by simp
qed

lemma cleanupOldData_unarchived:
  assumes "db s" "getSalesByDateRange now (Iso 0) (Iso c) s = (Arr old, s1)" "old \<noteq> []"
    "\<forall>r\<in>set old. getProp ''id'' r \<noteq> None" "Some (Iso now) \<in> set (keysOf BACKUPS s)"
  shows "saleRows (cleanupOldData now c s)
           = filter (\<lambda>r. inlineKey SALES r \<notin> getProp ''id'' ` set old) (saleRows s) \<and>
         backupRows (cleanupOldData now c s) = backupRows s"
proof -
  let ?P = "Some (Payload (Some []) (Some old) (Some []))"
  have f1: "frame s s1" using getSalesByDateRange_frame [of s now "Iso 0" "Iso c"] assms(2) by simp
  have d1: "db s1" using f1 assms(1) by (simp add: frame_fields)
  have k1: "Some (Iso now) \<in> set (keysOf BACKUPS s1)"
    using frame_keysOf [OF f1, of BACKUPS] assms(5) by simp
  obtain t s2 where 2: "createBackup now ''archive'' ?P s1 = (t, s2)" by fastforce
  have f2: "frame s1 s2" using createBackup_taken [OF d1 k1, of "''archive''" ?P] 2 by simp
  have f: "frame s s2" using f1 f2 by (rule frame_trans)
  have d2: "db s2" using f assms(1) by (simp add: frame_fields)
  obtain x xs where old: "old = x # xs" using assms(3) by (cases old) auto
  have c: "cleanupOldData now c s = snd (deleteAll now ''sales'' ''id'' old s2)"
    using assms(2) 2 by (simp add: cleanupOldData_def old del: deleteAll.simps)
  obtain s' where s': "deleteAll now ''sales'' ''id'' old s2 = (Inr (), s')"
    "rowsOf SALES s' = filter (\<lambda>r. inlineKey SALES r \<notin> getProp ''id'' ` set old) (rowsOf SALES s2)"
    "frameS SALES s2 s'"
    using deleteAll_data [OF d2, of SALES "''sales''" old "''id''" now] assms(4) by auto
  have "backupRows s' = backupRows s2" using frameS_other [OF s'(3), of BACKUPS] by simp
  moreover have "backupRows s2 = backupRows s" "saleRows s2 = saleRows s"
    using f by (simp_all add: frame_fields)
  ultimately show ?thesis using c s'(1,2) by simp
qed

lemma read_old:
  "getSalesByDateRange 100 (Iso 0) (Iso 50) archiveSystem =
     (Arr [Sale 1 10 None ''x''],
      archiveSystem\<lparr>cache := [(allKey ''sales'' (Some ''date'') (Some (Iso 0, Iso 50)),
                                 \<lparr>data = Arr [Sale 1 10 None ''x''], timestamp = 100\<rparr>)]\<rparr>)"
  by (simp add: getSalesByDateRange_def getAll_def getOrFetch_def fetchAll_def transaction_def
      objectStore_def indexProp_def inRange_def archiveSystem_def openSystem_def newSystem_def
      less_key_def)

lemma insort_drop_mem:
  assumes "sorted (map f xs)" "f a \<notin> f ` set xs" "length (filter (\<lambda>x. f a < f x) xs) < m"
  shows "a \<in> set (drop (Suc (length xs) - m) (insort_key f a xs))"
  using assms
proof (induction xs)
  case Nil
  then show ?case by simp
next
  case (Cons x xs)
  show ?case
  proof (cases "f a \<le> f x")
    case True
    then have lt: "f a < f x" using Cons.prems(2) by auto
    have "\<forall>y\<in>set xs. f a < f y" using Cons.prems(1) lt by auto
    then have "filter (\<lambda>x. f a < f x) xs = xs" by (intro filter_True) simp
    then have "Suc (length xs) < m" using Cons.prems(3) lt by simp
    then show ?thesis using True by simp
  next
    case False
    have nlt: "\<not> f a < f x" using False by auto
    have "a \<in> set (drop (Suc (length xs) - m) (insort_key f a xs))"
      using Cons.prems nlt by (intro Cons.IH) auto
    moreover have "Suc (length (x # xs)) - m = 0 \<or> Suc (length (x # xs)) - m = Suc (Suc (length xs) - m)"
      by auto
    ultimately show ?thesis
      using False by (auto simp: set_insort_key)
  qed
qed

lemma filter_by_key:
  assumes "distinct (map f rows)" "set old \<subseteq> set rows"
  shows "filter (\<lambda>r. f r \<notin> f ` set old) rows = filter (\<lambda>r. r \<notin> set old) rows"
proof (rule filter_cong [OF refl])
  fix r assume r: "r \<in> set rows"
  have inj: "inj_on f (set rows)" using assms(1) by (simp add: distinct_map)
  show "(f r \<notin> f ` set old) = (r \<notin> set old)"
    using inj r assms(2) by (auto simp: inj_on_def)
qed

lemma cacheGet_None_iff: "(cacheGet k es = None) = (k \<notin> fst ` set es)"
  by (induction es) (force split: if_splits)+

lemma cacheSet_new: "k \<notin> fst ` set es \<Longrightarrow> cacheSet k c es = es @ [(k, c)]"
  by (induction es) auto

lemma oldestEntry_keep:
  "\<forall>e\<in>set es. ot \<le> timestamp (snd e) \<Longrightarrow> oldestEntry es (Some (ok, ot)) = Some (ok, ot)"
  by (induction es) auto

lemma oldestEntry_head:
  assumes "sorted (map (\<lambda>e. timestamp (snd e)) (e # es))"
  shows "oldestEntry (e # es) None = Some (fst e, timestamp (snd e))"
proof -
  have "\<forall>x\<in>set es. timestamp (snd e) \<le> timestamp (snd x)" using assms by simp
  then have "oldestEntry es (Some (fst e, timestamp (snd e))) = Some (fst e, timestamp (snd e))"
    by (rule oldestEntry_keep)
  then show ?thesis by (cases e) simp
qed

lemma removeOldest_head:
  assumes "cache s = e # es" "sorted (map (\<lambda>e. timestamp (snd e)) (cache s))"
    "distinct (map fst (cache s))" "fst e \<noteq> []"
  shows "removeOldest s = s\<lparr>cache := es\<rparr>"
proof -
  have "fst e \<notin> fst ` set es" using assms(1,3) by simp
  then have "\<forall>x\<in>set es. fst x \<noteq> fst e" by (metis imageI)
  then have "filter (\<lambda>x. fst x \<noteq> fst e) es = es"
    by (intro filter_True) simp
  then show ?thesis
    using assms oldestEntry_head [of e es] by (simp add: removeOldest_def cacheDelete_def)
qed

lemma removeOldest_empty_key:
  assumes "cache s = e # es" "sorted (map (\<lambda>e. timestamp (snd e)) (cache s))" "fst e = []"
  shows "removeOldest s = s"
  using assms oldestEntry_head [of e es] by (simp add: removeOldest_def)

lemma getOrFetch_store:
  assumes "k \<notin> fst ` set (cache s)"
  shows "snd (getOrFetch tc ts k fetchUndefined ttl s) =
           (if maxSize s \<le> length (cache s)
            then (removeOldest s)\<lparr>cache := cacheSet k \<lparr>data = Undefined, timestamp = ts\<rparr> (cache (removeOldest s))\<rparr>
            else s\<lparr>cache := cache s @ [entryAt (k, ts)]\<rparr>)"
proof -
  have "cacheGet k (cache s) = None" using assms by (simp add: cacheGet_None_iff)
  then show ?thesis
    by (simp add: getOrFetch_def fetchUndefined_def Let_def cacheSet_new [OF assms] entryAt_def)
qed

lemma fetchEach_below:
  assumes "length (cache s) + length kts \<le> maxSize s" "distinct (map fst (cache s) @ map fst kts)"
  shows "fetchEach kts s = s\<lparr>cache := cache s @ map entryAt kts\<rparr>"
  using assms
proof (induction kts arbitrary: s)
  case Nil
  then show ?case by simp
next
  case (Cons kt kts)
  obtain k t where kt: "kt = (k, t)" by (cases kt)
  let ?s1 = "s\<lparr>cache := cache s @ [entryAt (k, t)]\<rparr>"
  have new: "k \<notin> fst ` set (cache s)" using Cons.prems(2) kt by auto
  have 1: "snd (getOrFetch t t k fetchUndefined (defaultTTL s) s) = ?s1"
    using Cons.prems(1) by (simp add: getOrFetch_store [OF new])
  have "fetchEach kts ?s1 = ?s1\<lparr>cache := cache ?s1 @ map entryAt kts\<rparr>"
    using Cons.prems kt by (intro Cons.IH) (auto simp: entryAt_def)
  then show ?case using 1 by (simp add: kt)
qed

lemma fetchEach_window:
  assumes "cache s = map entryAt pre" "length pre \<le> maxSize s" "0 < maxSize s"
    "distinct (map fst (pre @ kts))" "sorted (map snd (pre @ kts))" "[] \<notin> fst ` set (pre @ kts)"
  shows "cache (fetchEach kts s) = map entryAt (drop (length pre + length kts - maxSize s) (pre @ kts))"
  using assms
proof (induction kts arbitrary: pre s)
  case Nil
  then show ?case by simp
next
  case (Cons kt kts)
  obtain k t where kt: "kt = (k, t)" by (cases kt)
  have keys: "map fst (cache s) = map fst pre" using Cons.prems(1) by (simp add: entryAt_def comp_def)
  have times: "map (\<lambda>e. timestamp (snd e)) (cache s) = map snd pre"
    using Cons.prems(1) by (simp add: entryAt_def comp_def)
  have new: "k \<notin> fst ` set (cache s)"
  proof -
    have "k \<notin> set (map fst pre)" using Cons.prems(4) kt by auto
    then show ?thesis using keys by (metis list.set_map)
  qed
  show ?case
  proof (cases "maxSize s \<le> length (cache s)")
    case False
    let ?s1 = "s\<lparr>cache := cache s @ [entryAt (k, t)]\<rparr>"
    have 1: "snd (getOrFetch t t k fetchUndefined (defaultTTL s) s) = ?s1"
      using False by (simp add: getOrFetch_store [OF new])
    have "cache (fetchEach kts ?s1)
        = map entryAt (drop (length (pre @ [kt]) + length kts - maxSize ?s1) ((pre @ [kt]) @ kts))"
      using Cons.prems False kt by (intro Cons.IH) simp_all
    then show ?thesis using 1 by (simp add: kt)
  next
    case True
    then have full: "length pre = maxSize s" using Cons.prems(1,2) by simp
    then obtain p pre' where pre: "pre = p # pre'" using Cons.prems(3) by (cases pre) auto
    have c: "cache s = entryAt p # map entryAt pre'" using Cons.prems(1) pre by simp
    have r: "removeOldest s = s\<lparr>cache := map entryAt pre'\<rparr>"
    proof (rule removeOldest_head [OF c])
      show "sorted (map (\<lambda>e. timestamp (snd e)) (cache s))"
        using Cons.prems(5) times by (simp add: sorted_append)
      show "distinct (map fst (cache s))" using Cons.prems(4) keys by simp
      show "fst (entryAt p) \<noteq> []" using Cons.prems(6) pre by (auto simp: entryAt_def)
    qed
    let ?s1 = "s\<lparr>cache := map entryAt (pre' @ [kt])\<rparr>"
    have new': "k \<notin> fst ` set (map entryAt pre')" using new c by auto
    have 1: "snd (getOrFetch t t k fetchUndefined (defaultTTL s) s) = ?s1"
      using True by (simp add: getOrFetch_store [OF new] r cacheSet_new [OF new'] entryAt_def kt)
    have "cache (fetchEach kts ?s1)
        = map entryAt (drop (length (pre' @ [kt]) + length kts - maxSize ?s1) ((pre' @ [kt]) @ kts))"
      using Cons.prems pre full by (intro Cons.IH) (auto simp: sorted_append)
    moreover have "drop (length (pre' @ [kt]) + length kts - maxSize s) ((pre' @ [kt]) @ kts)
        = drop (length pre + length (kt # kts) - maxSize s) (pre @ kt # kts)"
      using full pre by simp
    ultimately show ?thesis using 1 by (simp add: kt)
  qed
qed

lemma fetchEach_append: "fetchEach (as @ bs) s = fetchEach bs (fetchEach as s)"
  by (induction as arbitrary: s) auto

lemma manyKeys_Suc: "manyKeys (Suc n) = manyKeys n @ [(replicate n CHR ''k'', n)]"
  by (simp add: manyKeys_def)

lemma manyKeys_head: "manyKeys (Suc n) = ([], 0) # map (\<lambda>i. (replicate i CHR ''k'', i)) [1 ..< Suc n]"
  by (simp add: manyKeys_def upt_conv_Cons del: upt_Suc)

lemma manyKeys_fst: "map fst (manyKeys n) = map (\<lambda>i. replicate i CHR ''k'') [0 ..< n]"
  by (simp add: manyKeys_def comp_def)

lemma manyKeys_snd: "map snd (manyKeys n) = [0 ..< n]"
  by (simp add: manyKeys_def comp_def map_idI)

lemma manyKeys_distinct: "distinct (map fst (manyKeys n))"
proof -
  have "inj_on (\<lambda>i. replicate i CHR ''k'') (set [0 ..< n])"
    by (rule inj_onI) (metis length_replicate)
  then show ?thesis by (simp add: manyKeys_fst distinct_map)
qed

lemma fetchEach_empty_key:
  assumes "cache s = []" "maxSize s = Suc m"
  shows "cache (fetchEach (manyKeys (Suc (Suc m))) s) = map entryAt (manyKeys (Suc (Suc m)))"
proof -
  let ?s1 = "s\<lparr>cache := map entryAt (manyKeys (Suc m))\<rparr>"
  let ?k = "replicate (Suc m) CHR ''k''"
  have 1: "fetchEach (manyKeys (Suc m)) s = ?s1"
    using fetchEach_below [of s "manyKeys (Suc m)"] assms manyKeys_distinct [of "Suc m"]
    by (simp add: manyKeys_def)
  have keys: "map fst (cache ?s1) = map fst (manyKeys (Suc m))"
    by (simp add: entryAt_def comp_def)
  have "?k \<notin> set (map fst (manyKeys (Suc m)))"
    using manyKeys_distinct [of "Suc (Suc m)"] by (simp add: manyKeys_Suc)
  then have new: "?k \<notin> fst ` set (cache ?s1)" using keys by (metis list.set_map)
  have c: "cache ?s1 = entryAt ([], 0) # map entryAt (map (\<lambda>i. (replicate i CHR ''k'', i)) [1 ..< Suc m])"
    by (simp add: manyKeys_head del: upt_Suc)
  have "map (\<lambda>e. timestamp (snd e)) (cache ?s1) = [0 ..< Suc m]"
    using manyKeys_snd [of "Suc m"] by (simp add: entryAt_def comp_def)
  then have srt: "sorted (map (\<lambda>e. timestamp (snd e)) (cache ?s1))" by (simp del: upt_Suc)
  have r: "removeOldest ?s1 = ?s1"
    using c srt by (rule removeOldest_empty_key) (simp add: entryAt_def)
  have 2: "snd (getOrFetch (Suc m) (Suc m) ?k fetchUndefined (defaultTTL ?s1) ?s1)
         = ?s1\<lparr>cache := cache ?s1 @ [entryAt (?k, Suc m)]\<rparr>"
    using assms(2) by (simp only: getOrFetch_store [OF new] r cacheSet_new [OF new]) (simp add: manyKeys_def entryAt_def)
  have "fetchEach (manyKeys (Suc (Suc m))) s = fetchEach [(?k, Suc m)] ?s1"
    using 1 manyKeys_Suc [of "Suc m"] by (simp add: fetchEach_append)
  then show ?thesis using 2 manyKeys_Suc [of "Suc m"] by simp
qed

text \<open>
  Away from the empty key the cache is a window over the keys stored: from an empty cache,
  distinct non-empty keys stored at non-decreasing clock readings leave the \<open>maxSize\<close> most
  recent ones, in the order they were stored.
\<close>

lemma cache_eviction_order:
  assumes "cache s = []" "0 < maxSize s" "distinct (map fst kts)" "sorted (map snd kts)"
    "[] \<notin> fst ` set kts"
  shows "cache (fetchEach kts s) = map entryAt (drop (length kts - maxSize s) kts)"
  using fetchEach_window [of s "[]" kts] assms by simp

text \<open>coherence of the cache across reads\<close>

lemma cacheGet_cacheSet: "cacheGet k (cacheSet k' c es) = (if k = k' then Some c else cacheGet k es)"
  by (induction es) auto

lemma cacheGet_cacheDelete: "cacheGet k (cacheDelete k' es) = (if k = k' then None else cacheGet k es)"
  by (induction es) (auto simp: cacheDelete_def)

lemma cacheAgrees_removeOldest: "cacheAgrees k v s \<Longrightarrow> cacheAgrees k v (removeOldest s)"
  by (auto simp: cacheAgrees_def removeOldest_def cacheGet_cacheDelete split: option.splits)

lemma cacheAgrees_cache_eq: "cache s' = cache s \<Longrightarrow> cacheAgrees k v s' = cacheAgrees k v s"
  by (simp add: cacheAgrees_def)

lemma getOrFetch_agrees:
  assumes "cacheAgrees k v s" "snd (f s) = s" "k = k' \<longrightarrow> fst (f s) = Inr v"
  shows "cacheAgrees k v (snd (getOrFetch tc ts k' f ttl s))"
proof -
  obtain x where x: "f s = (x, s)" using assms(2) by (metis prod.collapse)
  have r: "cacheAgrees k v (removeOldest s)" using assms(1) by (rule cacheAgrees_removeOldest)
  show ?thesis
    using assms(1,3) x r
    by (cases x) (auto simp: getOrFetch_def Let_def cacheAgrees_def cacheGet_cacheSet
        split: option.splits)
qed

lemma fetchOne_data:
  assumes "db s" "st \<noteq> AUDIT_LOG"
  shows "fetchOne now (storeName st) k s =
     (Inr (case find (\<lambda>r. inlineKey st r = Some k) (rowsOf st s) of None \<Rightarrow> Undefined | Some r \<Rightarrow> Obj r), s)"
  using assms by (simp add: fetchOne_def transaction_data objectStore_storeName)

lemma find_by_key:
  assumes "distinct (map f rows)" "b \<in> set rows" "f b = k"
  shows "find (\<lambda>r. f r = k) rows = Some b"
  using assms by (induction rows) (auto simp: image_iff)

lemma get_coherent:
  assumes "db s" "st \<noteq> AUDIT_LOG" "wfStore st s" "b \<in> set (rowsOf st s)" "inlineKey st b = Some k"
    "cacheAgrees (storeName st @ ''_'' @ keyText k) (Obj b) s"
  shows "fst (get now (storeName st) k s) = Inr (Obj b)"
proof -
  have "find (\<lambda>r. inlineKey st r = Some k) (rowsOf st s) = Some b"
    using assms(3,4,5) by (intro find_by_key) (simp_all add: wfStore_rows)
  then have f: "fetchOne now (storeName st) k s = (Inr (Obj b), s)"
    using fetchOne_data [OF assms(1,2), of now k] by simp
  show ?thesis
    using assms(6) f
    by (auto simp: get_def getOrFetch_def cacheAgrees_def Let_def split: option.splits)
qed

lemma get_agrees:
  assumes "db s" "st \<noteq> AUDIT_LOG" "cacheAgrees k' v s" "k' \<noteq> storeName st @ ''_'' @ keyText k"
  shows "cacheAgrees k' v (snd (get now (storeName st) k s))"
  unfolding get_def
  using assms fetchOne_data [OF assms(1,2), of now k]
  by (intro getOrFetch_agrees) simp_all

lemma getAll_agrees:
  assumes "db s" "st \<noteq> AUDIT_LOG" "cacheAgrees k' v s" "k' \<noteq> allKey (storeName st) None None"
  shows "cacheAgrees k' v (snd (getAll now (storeName st) None None s))"
  unfolding getAll_def
  using assms fetchAll_data [OF assms(1,2), of now]
  by (intro getOrFetch_agrees) simp_all

lemma getAll_read:
  assumes "db s" "st \<noteq> AUDIT_LOG" "wfStore st s"
    "cacheAgrees (allKey (storeName st) None None) (Arr (rowsOf st s)) s"
  shows "\<exists>s1. getAll now (storeName st) None None s = (Inr (Arr (rowsOf st s)), s1) \<and> frame s s1"
  using getAll_coherent [OF assms, of now] getAll_frame [of s now "storeName st" None None]
  by (metis prod.collapse)

lemma allKey_names [simp]:
  "allKey ''products'' None None \<noteq> allKey ''sales'' None None"
  "allKey ''products'' None None \<noteq> allKey ''settings'' None None"
  "allKey ''sales'' None None \<noteq> allKey ''settings'' None None"
  "allKey ''sales'' None None \<noteq> allKey ''products'' None None"
  "allKey ''settings'' None None \<noteq> allKey ''products'' None None"
  "allKey ''settings'' None None \<noteq> allKey ''sales'' None None"
  "allKey ''products'' None None \<noteq> ''backups'' @ x"
  "allKey ''sales'' None None \<noteq> ''backups'' @ x"
  "allKey ''settings'' None None \<noteq> ''backups'' @ x"
  by (simp_all add: allKey_def)

lemma getSystemData_snapshot:
  assumes "db s" "wfStore PRODUCTS s" "wfStore SALES s" "wfStore SETTINGS s"
    "cacheAgrees (allKey ''products'' None None) (Arr (productRows s)) s"
    "cacheAgrees (allKey ''sales'' None None) (Arr (saleRows s)) s"
    "cacheAgrees (allKey ''settings'' None None) (Arr (settingRows s)) s"
  shows "fst (getSystemData now s) =
           Payload (Some (productRows s)) (Some (saleRows s)) (Some (settingsObject (settingRows s)))"
proof -
  obtain s1 where 1: "getAll now ''products'' None None s = (Inr (Arr (productRows s)), s1)" "frame s s1"
    using getAll_read [of s PRODUCTS now] assms by auto
  have d1: "db s1" and r1: "saleRows s1 = saleRows s" "settingRows s1 = settingRows s"
    using 1(2) assms(1) by (simp_all add: frame_fields)
  have w1: "wfStore SALES s1" "wfStore SETTINGS s1"
    using wfStore_cong [of SALES s1 s] wfStore_cong [of SETTINGS s1 s] r1 assms(3,4) by simp_all
  have a1: "cacheAgrees (allKey ''sales'' None None) (Arr (saleRows s)) s1"
    "cacheAgrees (allKey ''settings'' None None) (Arr (settingRows s)) s1"
    using getAll_agrees [of s PRODUCTS _ _ now] assms(1,6,7) 1(1) by auto
  obtain s2 where 2: "getAll now ''sales'' None None s1 = (Inr (Arr (saleRows s)), s2)" "frame s1 s2"
    using getAll_read [of s1 SALES now] d1 w1 a1 r1 by auto
  have d2: "db s2" and r2: "settingRows s2 = settingRows s"
    using 2(2) d1 r1 by (simp_all add: frame_fields)
  have w2: "wfStore SETTINGS s2"
    using wfStore_cong [of SETTINGS s2 s] r2 assms(4) by simp
  have a2: "cacheAgrees (allKey ''settings'' None None) (Arr (settingRows s)) s2"
    using getAll_agrees [of s1 SALES _ _ now] d1 a1(2) 2(1) by auto
  obtain s3 where 3: "getAll now ''settings'' None None s2 = (Inr (Arr (settingRows s)), s3)"
    using getAll_read [of s2 SETTINGS now] d2 w2 a2 r2 by auto
  show ?thesis using 1(1) 2(1) 3 by (simp add: getSystemData_def)
qed

text \<open>a backup that is created and kept\<close>

lemma createBackup_kept:
  assumes "db s" "wfStore BACKUPS s" "Some (Iso now) \<notin> set (keysOf BACKUPS s)"
    "length (filter (\<lambda>b. now < timeOf b) (backupRows s)) < 30"
  shows "\<exists>d info s'. createBackup now ty dt s = (Some (Iso now), s') \<and>
      (case dt of Some d' \<Rightarrow> d = d' | None \<Rightarrow> d = fst (getSystemData now s)) \<and>
      Backup now ty d 3 info \<in> set (backupRows s') \<and>
      frameS BACKUPS s s' \<and> wfStore BACKUPS s'"
proof -
  obtain d info s' where 2: "createBackup now ty dt s = (Some (Iso now), s')"
    "(case dt of Some d' \<Rightarrow> d = d' | None \<Rightarrow> d = fst (getSystemData now s))"
    "backupRows s' = drop (Suc (length (backupRows s)) - 30)
          (insort_key (inlineKey BACKUPS) (Backup now ty d 3 info) (backupRows s))"
    "frameS BACKUPS s s'" "wfStore BACKUPS s'"
    using createBackup_ok [OF assms(1,2,3), of ty dt] by blast
  have srt: "sorted (map (inlineKey BACKUPS) (backupRows s))"
    and nn: "\<forall>r\<in>set (backupRows s). inlineKey BACKUPS r \<noteq> None"
    using assms(2) by (simp_all add: wfStore_rows)
  have key: "inlineKey BACKUPS r = Some (Iso (timeOf r))" if "r \<in> set (backupRows s)" for r
    using nn that timestamp_key [of r] by (auto simp: inlineKey_def)
  have newkey: "inlineKey BACKUPS (Backup now ty d 3 info) = Some (Iso now)"
    by (simp add: inlineKey_def)
  have "filter (\<lambda>x. inlineKey BACKUPS (Backup now ty d 3 info) < inlineKey BACKUPS x) (backupRows s)
      = filter (\<lambda>b. now < timeOf b) (backupRows s)"
    by (rule filter_cong [OF refl]) (simp add: newkey key)
  then have cnt: "length (filter (\<lambda>x. inlineKey BACKUPS (Backup now ty d 3 info)
                     < inlineKey BACKUPS x) (backupRows s)) < 30"
    using assms(4) by simp
  have fresh: "inlineKey BACKUPS (Backup now ty d 3 info) \<notin> inlineKey BACKUPS ` set (backupRows s)"
    using assms(3) by (simp add: newkey keysOf_def)
  have mem: "Backup now ty d 3 info \<in> set (backupRows s')"
    using insort_drop_mem [OF srt fresh cnt] 2(3) by simp
  show ?thesis using 2(1,2,4,5) mem by blast
qed

lemma createBackup_frameS:
  assumes "db s" "wfStore BACKUPS s"
  shows "frameS BACKUPS s (snd (createBackup now ty dt s)) \<and> wfStore BACKUPS (snd (createBackup now ty dt s))"
proof (cases "Some (Iso now) \<in> set (keysOf BACKUPS s)")
  case True
  have f: "frame s (snd (createBackup now ty dt s))"
    using createBackup_taken [OF assms(1) True] by simp
  then have "wfStore BACKUPS (snd (createBackup now ty dt s))"
    using wfStore_cong [of BACKUPS "snd (createBackup now ty dt s)" s] frame_rowsOf [OF f, of BACKUPS] assms(2)
    by simp
  then show ?thesis using frame_frameS [OF f] by simp
next
  case False
  then show ?thesis using createBackup_ok [OF assms False, of ty dt] by auto
qed

text \<open>adding rows with fresh keys\<close>

lemma execAll_ok:
  assumes "st \<noteq> AUDIT_LOG" "wfStore st s" "\<forall>r\<in>set items. inlineKey st r \<noteq> None"
    "distinct (map (inlineKey st) items)" "inlineKey st ` set items \<inter> set (keysOf st s) = {}"
  shows "\<exists>rs. execAll st items s = Inr (setRows st rs s) \<and> set rs = set (rowsOf st s) \<union> set items \<and>
              wfStore st (setRows st rs s)"
  using assms(2-)
proof (induction items arbitrary: s)
  case Nil
  have "setRows st (rowsOf st s) s = s" by (cases st) simp_all
  then show ?case using Nil.prems(1) by (intro exI [of _ "rowsOf st s"]) simp
next
  case (Cons r items)
  obtain k where k: "inlineKey st r = Some k" using Cons.prems(2) by auto
  have fresh: "Some k \<notin> set (keysOf st s)" using Cons.prems(4) k by auto
  let ?rs1 = "insort_key (inlineKey st) r (rowsOf st s)"
  let ?s1 = "setRows st ?rs1 s"
  have e: "execAdd st r s = Inr (k, ?s1)" using assms(1) k fresh by (rule execAdd_fresh)
  have w1: "wfStore st ?s1"
    using Cons.prems(1) k fresh by (rule wfStore_insort) simp
  have keys1: "set (keysOf st ?s1) = insert (Some k) (set (keysOf st s))"
    by (simp add: keysOf_def set_insort_key k)
  have disj: "inlineKey st ` set items \<inter> set (keysOf st ?s1) = {}"
    using Cons.prems(3,4) k keys1 by (auto simp: image_iff)
  obtain rs where rs: "execAll st items ?s1 = Inr (setRows st rs ?s1)"
    "set rs = set (rowsOf st ?s1) \<union> set items" "wfStore st (setRows st rs ?s1)"
    using Cons.IH [OF w1 _ _ disj] Cons.prems(2,3) by auto
  have same: "setRows st rs ?s1 = setRows st rs s" by (cases st) simp_all
  show ?case
    using e rs same by (intro exI [of _ rs]) (auto simp: set_insort_key)
qed

lemma takeWhile_all: "\<forall>x\<in>set xs. P x \<Longrightarrow> takeWhile P xs = xs"
  by (induction xs) auto

lemma bulkAdd_ok:
  assumes "db s" "st \<noteq> AUDIT_LOG" "wfStore st s" "items \<noteq> []" "\<forall>r\<in>set items. inlineKey st r \<noteq> None"
    "distinct (map (inlineKey st) items)" "inlineKey st ` set items \<inter> set (keysOf st s) = {}"
  shows "\<exists>rs. bulkAdd now (storeName st) (Some items) s =
                (Inr (length items), invalidatePattern (storeName st) (setRows st rs s)) \<and>
              set rs = set (rowsOf st s) \<union> set items \<and> wfStore st (setRows st rs s)"
proof -
  obtain rs where rs: "execAll st items s = Inr (setRows st rs s)"
    "set rs = set (rowsOf st s) \<union> set items" "wfStore st (setRows st rs s)"
    using execAll_ok [OF assms(2,3,5,6,7)] by blast
  have p: "takeWhile (placeable st) items = items"
    using assms(5) by (intro takeWhile_all) (simp add: placeable_def)
  have "bulkAdd now (storeName st) (Some items) s =
          (Inr (length items), invalidatePattern (storeName st) (setRows st rs s))"
    using assms(1,2,4) rs(1)
    by (simp add: p bulkAdd_def transaction_data objectStore_storeName Let_def)
  then show ?thesis using rs(2,3) by blast
qed

lemma wfStore_empty: "rowsOf st s = [] \<Longrightarrow> wfStore st s"
  by (simp add: wfStore_def keysOf_def)

lemma replaceStore:
  assumes "db s" "st \<noteq> AUDIT_LOG" "items \<noteq> []" "wellKeyed st items"
  shows "\<exists>s'. andThen (clearStore now (storeName st) s) (bulkAdd now (storeName st) (Some items))
                = (Inr (length items), s') \<and>
              set (rowsOf st s') = set items \<and> wfStore st s' \<and> frameS st s s'"
proof -
  let ?n = "storeName st"
  let ?s0 = "invalidatePattern ?n (setRows st [] s)"
  have c: "clearStore now ?n s = (Inr True, ?s0)"
    using assms(1,2) by (intro clearStore_data) (simp_all add: objectStore_storeName)
  have d0: "db ?s0" using assms(1) by simp
  have r0: "rowsOf st ?s0 = []" by simp
  have w0: "wfStore st ?s0" using r0 by (rule wfStore_empty)
  have k0: "inlineKey st ` set items \<inter> set (keysOf st ?s0) = {}" by simp
  have "None \<notin> inlineKey st ` set items" using assms(4) by (simp add: wellKeyed_def)
  then have p: "\<forall>r\<in>set items. inlineKey st r \<noteq> None" by (metis imageI)
  have dk: "distinct (map (inlineKey st) items)" using assms(4) by (simp add: wellKeyed_def)
  obtain rs where rs: "bulkAdd now ?n (Some items) ?s0 =
                (Inr (length items), invalidatePattern ?n (setRows st rs ?s0))"
    "set rs = set (rowsOf st ?s0) \<union> set items" "wfStore st (setRows st rs ?s0)"
    using bulkAdd_ok [OF d0 assms(2) w0 assms(3) p dk k0, of now] by auto
  let ?s' = "invalidatePattern ?n (setRows st rs ?s0)"
  have 1: "andThen (clearStore now ?n s) (bulkAdd now ?n (Some items)) = (Inr (length items), ?s')"
    using c rs(1) by (simp add: andThen_def)
  have 2: "set (rowsOf st ?s') = set items" using rs(2) by simp
  have 3: "wfStore st ?s'" using rs(3) wfStore_cong [of st ?s' "setRows st rs ?s0"] by simp
  have "frame (setRows st rs s) ?s'"
    by (cases st) (simp_all add: frame_def invalidatePattern_def)
  then have 4: "frameS st s ?s'" using assms(2) by (intro frameS_setRows_step [where rs = rs])
  show ?thesis using 1 2 3 4 by blast
qed

lemma saveStore:
  assumes "db s" "st \<noteq> AUDIT_LOG" "wellKeyed st (listOf items)" "nm = storeName st"
  shows "\<exists>n s'. (case items of
                   Some (x # xs) \<Rightarrow> andThen (clearStore now nm s) (bulkAdd now nm items)
                 | _ \<Rightarrow> (Inr 0, s)) = (Inr n, s') \<and>
              frameS st s s' \<and> replacedBy st items s s'"
proof (cases items)
  case None
  then show ?thesis by (simp add: replacedBy_def)
next
  case (Some xs)
  show ?thesis
  proof (cases xs)
    case Nil
    then show ?thesis using Some by (simp add: replacedBy_def)
  next
    case (Cons y ys)
    have "wellKeyed st (y # ys)" using assms(3) Some Cons by (simp add: listOf_def)
    from replaceStore [OF assms(1,2) _ this, of now]
    show ?thesis using Some Cons assms(4) by (auto simp: replacedBy_def)
  qed
qed

lemma replacedBy_cong:
  "rowsOf st s2 = rowsOf st s1 \<Longrightarrow> rowsOf st s0' = rowsOf st s0 \<Longrightarrow>
   replacedBy st items s0 s1 \<Longrightarrow> replacedBy st items s0' s2"
  using wfStore_cong [of st s2 s1]
  by (auto simp: replacedBy_def split: option.splits list.splits)

lemma settingsReplacedBy_cong:
  "settingRows s2 = settingRows s1 \<Longrightarrow> settingRows s0' = settingRows s0 \<Longrightarrow>
   settingsReplacedBy es s0 s1 \<Longrightarrow> settingsReplacedBy es s0' s2"
  using wfStore_cong [of SETTINGS s2 s1]
  by (auto simp: settingsReplacedBy_def split: option.splits)

lemma wellKeyed_settings:
  "distinct (map fst en) \<Longrightarrow> wellKeyed SETTINGS (map (\<lambda>e. Setting (fst e) (snd e)) en)"
  by (simp add: wellKeyed_def inlineKey_def comp_def distinct_map inj_on_def image_iff)

lemma saveSettings:
  assumes "db s" "distinct (map fst (listOf es))"
  shows "\<exists>s'. (case es of
                Some en \<Rightarrow>
                  andThen (clearStore now ''settings'' s)
                    (\<lambda>s3. andThen
                       (bulkAdd now ''settings'' (Some (map (\<lambda>e. Setting (fst e) (snd e)) en)) s3)
                       (\<lambda>s4. (Inr (), s4)))
              | None \<Rightarrow> (Inr (), s)) = (Inr (), s') \<and>
            frameS SETTINGS s s' \<and> settingsReplacedBy es s s'"
proof (cases es)
  case None
  then show ?thesis by (simp add: settingsReplacedBy_def)
next
  case (Some en)
  let ?s0 = "invalidatePattern ''settings'' (setRows SETTINGS [] s)"
  have c: "clearStore now ''settings'' s = (Inr True, ?s0)"
    using assms(1) by (intro clearStore_data) simp_all
  show ?thesis
  proof (cases en)
    case Nil
    have f: "frameS SETTINGS s ?s0"
      by (rule frameS_setRows_step [where rs = "[]"]) simp_all
    have w: "wfStore SETTINGS ?s0" by (rule wfStore_empty) simp
    show ?thesis
      using Some Nil c f w by (simp add: andThen_def bulkAdd_def settingsReplacedBy_def invalidatePattern_def)
  next
    case (Cons e en')
    let ?items = "map (\<lambda>e. Setting (fst e) (snd e)) en"
    have wk: "wellKeyed SETTINGS ?items"
      using assms(2) Some by (intro wellKeyed_settings) (simp add: listOf_def)
    have ne: "?items \<noteq> []" using Cons by simp
    obtain s' where s': "andThen (clearStore now (storeName SETTINGS) s)
                            (bulkAdd now (storeName SETTINGS) (Some ?items)) = (Inr (length ?items), s')"
      "set (rowsOf SETTINGS s') = set ?items" "wfStore SETTINGS s'" "frameS SETTINGS s s'"
      using replaceStore [OF assms(1) _ ne wk, of now] by auto
    have b: "bulkAdd now ''settings'' (Some ?items) ?s0 = (Inr (length ?items), s')"
      using s'(1) c by (simp add: andThen_def)
    show ?thesis
      using Some c b s'(2,3,4) by (simp add: andThen_def settingsReplacedBy_def)
  qed
qed

lemma saveOperations_ok:
  assumes "db s" "wellKeyed PRODUCTS (listOf ps)" "wellKeyed SALES (listOf ss)"
    "distinct (map fst (listOf es))"
  shows "\<exists>s'. saveOperations now (Some (Payload ps ss es)) s = (Inr (), s') \<and>
            replacedBy PRODUCTS ps s s' \<and> replacedBy SALES ss s s' \<and> settingsReplacedBy es s s' \<and>
            backupRows s' = backupRows s \<and> frameD s s'"
proof -
  obtain n1 s1 where 1:
    "(case ps of Some (x # xs) \<Rightarrow> andThen (clearStore now ''products'' s) (bulkAdd now ''products'' ps)
      | _ \<Rightarrow> (Inr 0, s)) = (Inr n1, s1)" "frameS PRODUCTS s s1" "replacedBy PRODUCTS ps s s1"
    using saveStore [OF assms(1) _ assms(2), of "''products''" now] by auto
  have d1: "db s1" using frameS_fields(1) [OF 1(2)] assms(1) by simp
  obtain n2 s2 where 2:
    "(case ss of Some (x # xs) \<Rightarrow> andThen (clearStore now ''sales'' s1) (bulkAdd now ''sales'' ss)
      | _ \<Rightarrow> (Inr 0, s1)) = (Inr n2, s2)" "frameS SALES s1 s2" "replacedBy SALES ss s1 s2"
    using saveStore [OF d1 _ assms(3), of "''sales''" now] by auto
  have d2: "db s2" using frameS_fields(1) [OF 2(2)] d1 by simp
  obtain s3 where 3:
    "(case es of
        Some en \<Rightarrow>
          andThen (clearStore now ''settings'' s2)
            (\<lambda>s3. andThen
               (bulkAdd now ''settings'' (Some (map (\<lambda>e. Setting (fst e) (snd e)) en)) s3)
               (\<lambda>s4. (Inr (), s4)))
      | None \<Rightarrow> (Inr (), s2)) = (Inr (), s3)" "frameS SETTINGS s2 s3" "settingsReplacedBy es s2 s3"
    using saveSettings [OF d2 assms(4), of now] by auto
  have run: "saveOperations now (Some (Payload ps ss es)) s = (Inr (), s3)"
    using 1(1) 2(1) 3(1)
    by (cases ps; cases ss; cases es; cases "listOf ps"; cases "listOf ss")
       (simp_all add: saveOperations_def andThen_def listOf_def)
  have p: "replacedBy PRODUCTS ps s s3"
    using 1(3) frameS_other [OF 2(2), of PRODUCTS] frameS_other [OF 3(2), of PRODUCTS]
    by (intro replacedBy_cong [of PRODUCTS s3 s1 s s]) simp_all
  have sa: "replacedBy SALES ss s s3"
    using 2(3) frameS_other [OF 1(2), of SALES] frameS_other [OF 3(2), of SALES]
    by (intro replacedBy_cong [of SALES s3 s2 s s1]) simp_all
  have se: "settingsReplacedBy es s s3"
    using 3(3) frameS_other [OF 1(2), of SETTINGS] frameS_other [OF 2(2), of SETTINGS]
    by (intro settingsReplacedBy_cong [of s3 s3 s s2]) simp_all
  have b: "backupRows s3 = backupRows s"
    using frameS_other [OF 1(2), of BACKUPS] frameS_other [OF 2(2), of BACKUPS]
      frameS_other [OF 3(2), of BACKUPS] by simp
  have fd: "frameD s s3"
    using frameS_frameD [OF 1(2)] frameS_frameD [OF 2(2)] frameS_frameD [OF 3(2)]
    by (blast intro: frameD_trans)
  show ?thesis using run p sa se b fd by blast
qed

lemma saveSystemData_ok:
  assumes "db s" "wfStore BACKUPS s" "wellKeyed PRODUCTS (listOf ps)" "wellKeyed SALES (listOf ss)"
    "distinct (map fst (listOf es))"
  shows "\<exists>s'. saveSystemData now (Some (Payload ps ss es)) s = (True, s') \<and>
            replacedBy PRODUCTS ps s s' \<and> replacedBy SALES ss s s' \<and> settingsReplacedBy es s s'"
proof -
  let ?d = "Payload ps ss es"
  obtain s1 where 1: "saveOperations now (Some ?d) s = (Inr (), s1)"
    "replacedBy PRODUCTS ps s s1" "replacedBy SALES ss s s1" "settingsReplacedBy es s s1"
    "backupRows s1 = backupRows s" "frameD s s1"
    using saveOperations_ok [OF assms(1,3,4,5), of now] by blast
  have e: "executeTransaction (saveOperations now (Some ?d)) s = (Inr (), s1)"
    using assms(1) 1(1) by (simp add: executeTransaction_def)
  have d1: "db s1" using frameD_fields(1) [OF 1(6)] assms(1) by simp
  have w1: "wfStore BACKUPS s1" using wfStore_cong [of BACKUPS s1 s] 1(5) assms(2) by simp
  obtain tk s2 where 2: "createBackup now ''auto'' (Some ?d) s1 = (tk, s2)" by fastforce
  have f2: "frameS BACKUPS s1 s2" using createBackup_frameS [OF d1 w1, of now "''auto''" "Some ?d"] 2 by simp
  let ?s' = "s2\<lparr>backupLatest := Some (stringify (Some ?d)), lastSave := Some now\<rparr>"
  have run: "saveSystemData now (Some ?d) s = (True, ?s')"
    using e 2 by (simp add: saveSystemData_def)
  have rows: "rowsOf st ?s' = rowsOf st s1" if "st \<noteq> BACKUPS" "st \<noteq> AUDIT_LOG" for st
    using frameS_other [OF f2, of st] that by (cases st) simp_all
  have p: "replacedBy PRODUCTS ps s ?s'"
    using 1(2) rows [of PRODUCTS] by (intro replacedBy_cong [of PRODUCTS ?s' s1 s s]) simp_all
  have sa: "replacedBy SALES ss s ?s'"
    using 1(3) rows [of SALES] by (intro replacedBy_cong [of SALES ?s' s1 s s]) simp_all
  have se: "settingsReplacedBy es s ?s'"
    using 1(4) rows [of SETTINGS] by (intro settingsReplacedBy_cong [of ?s' s1 s s]) simp_all
  show ?thesis using run p sa se by blast
qed

lemma restoreBackup_parts:
  assumes "db s" and "wfStore BACKUPS s"
    and "Backup t ty (Payload ps ss es) v i \<in> set (backupRows s)"
    and "cacheAgrees (''backups_'' @ keyText (Iso t)) (Obj (Backup t ty (Payload ps ss es) v i)) s"
    and "wellKeyed PRODUCTS (listOf ps)" and "wellKeyed SALES (listOf ss)"
    and "distinct (map fst (listOf es))"
  shows "\<exists>tk s2.
      createBackup t1 ''pre_restore'' None (snd (get t1 ''backups'' (Iso t) s)) = (tk, s2) \<and>
      restoreBackup t1 t2 (Iso t) s =
        (True, snd (logAudit t2 ''restore_backup'' (RestoredFrom (Iso t))
                      (snd (saveSystemData t2 (Some (Payload ps ss es)) s2)))) \<and>
      productRows s2 = productRows s \<and> saleRows s2 = saleRows s \<and> settingRows s2 = settingRows s \<and>
      replacedBy PRODUCTS ps s (snd (restoreBackup t1 t2 (Iso t) s)) \<and>
      replacedBy SALES ss s (snd (restoreBackup t1 t2 (Iso t) s)) \<and>
      settingsReplacedBy es s (snd (restoreBackup t1 t2 (Iso t) s)) \<and>
      (wfStore PRODUCTS s \<and> wfStore SALES s \<and> wfStore SETTINGS s \<and>
       cacheAgrees (allKey ''products'' None None) (Arr (productRows s)) s \<and>
       cacheAgrees (allKey ''sales'' None None) (Arr (saleRows s)) s \<and>
       cacheAgrees (allKey ''settings'' None None) (Arr (settingRows s)) s \<and>
       Some (Iso t1) \<notin> set (keysOf BACKUPS s) \<and>
       length (filter (\<lambda>b. t1 < timeOf b) (backupRows s)) < 30 \<longrightarrow>
         tk = Some (Iso t1) \<and>
         (\<exists>info. Backup t1 ''pre_restore''
                   (Payload (Some (productRows s)) (Some (saleRows s))
                      (Some (settingsObject (settingRows s)))) 3 info \<in> set (backupRows s2)))"
proof -
  let ?b = "Backup t ty (Payload ps ss es) v i"
  let ?d = "Payload ps ss es"
  have kb: "inlineKey BACKUPS ?b = Some (Iso t)" by (simp add: inlineKey_def)
  have g: "fst (get t1 ''backups'' (Iso t) s) = Inr (Obj ?b)"
    using get_coherent [of s BACKUPS ?b "Iso t" t1] assms(1,2,3,4) kb by simp
  obtain s1 where 1: "get t1 ''backups'' (Iso t) s = (Inr (Obj ?b), s1)"
    using g by (metis prod.collapse)
  have f1: "frame s s1" using get_frame [of s t1 "''backups''" "Iso t"] 1 by simp
  have d1: "db s1" using f1 assms(1) by (simp add: frame_fields)
  have r1: "rowsOf st s1 = rowsOf st s" if "st \<noteq> AUDIT_LOG" for st
    using frame_rowsOf [OF f1 that] .
  have w1: "wfStore BACKUPS s1" using wfStore_cong [OF r1] assms(2) by simp
  obtain tk s2 where 2: "createBackup t1 ''pre_restore'' None s1 = (tk, s2)" by fastforce
  have f2: "frameS BACKUPS s1 s2" and w2: "wfStore BACKUPS s2"
    using createBackup_frameS [OF d1 w1, of t1 "''pre_restore''" None] 2 by simp_all
  have d2: "db s2" using frameS_fields(1) [OF f2] d1 by simp
  have r2: "rowsOf st s2 = rowsOf st s" if "st \<noteq> AUDIT_LOG" "st \<noteq> BACKUPS" for st
    using frameS_other [OF f2, of st] r1 [of st] that by simp
  obtain s3 where 3: "saveSystemData t2 (Some ?d) s2 = (True, s3)"
    "replacedBy PRODUCTS ps s2 s3" "replacedBy SALES ss s2 s3" "settingsReplacedBy es s2 s3"
    using saveSystemData_ok [OF d2 w2 assms(5,6,7), of t2] by blast
  obtain u s4 where 4: "logAudit t2 ''restore_backup'' (RestoredFrom (Iso t)) s3 = (u, s4)"
    by fastforce
  have f4: "frame s3 s4" using logAudit_frame [of s3 t2 "''restore_backup''" "RestoredFrom (Iso t)"] 4 by simp
  have r4: "rowsOf st s4 = rowsOf st s3" if "st \<noteq> AUDIT_LOG" for st
    using frame_rowsOf [OF f4 that] .
  have run: "restoreBackup t1 t2 (Iso t) s = (True, s4)"
    using 1 2 3(1) 4 by (simp add: restoreBackup_def)
  have p: "replacedBy PRODUCTS ps s s4"
    using 3(2) r4 [of PRODUCTS] r2 [of PRODUCTS]
    by (intro replacedBy_cong [of PRODUCTS s4 s3 s s2]) simp_all
  have sa: "replacedBy SALES ss s s4"
    using 3(3) r4 [of SALES] r2 [of SALES]
    by (intro replacedBy_cong [of SALES s4 s3 s s2]) simp_all
  have se: "settingsReplacedBy es s s4"
    using 3(4) r4 [of SETTINGS] r2 [of SETTINGS]
    by (intro settingsReplacedBy_cong [of s4 s3 s s2]) simp_all
  have rows2: "productRows s2 = productRows s" "saleRows s2 = saleRows s" "settingRows s2 = settingRows s"
    using r2 [of PRODUCTS] r2 [of SALES] r2 [of SETTINGS] by simp_all
  have pre: "tk = Some (Iso t1) \<and>
         (\<exists>info. Backup t1 ''pre_restore''
                   (Payload (Some (productRows s)) (Some (saleRows s))
                      (Some (settingsObject (settingRows s)))) 3 info \<in> set (backupRows s2))"
    if h: "wfStore PRODUCTS s \<and> wfStore SALES s \<and> wfStore SETTINGS s \<and>
       cacheAgrees (allKey ''products'' None None) (Arr (productRows s)) s \<and>
       cacheAgrees (allKey ''sales'' None None) (Arr (saleRows s)) s \<and>
       cacheAgrees (allKey ''settings'' None None) (Arr (settingRows s)) s \<and>
       Some (Iso t1) \<notin> set (keysOf BACKUPS s) \<and>
       length (filter (\<lambda>b. t1 < timeOf b) (backupRows s)) < 30"
  proof -
    have w: "wfStore PRODUCTS s1" "wfStore SALES s1" "wfStore SETTINGS s1"
      using wfStore_cong [OF r1] h by simp_all
    have a1p: "cacheAgrees (allKey ''products'' None None) (Arr (productRows s1)) s1"
      using get_agrees [of s BACKUPS "allKey ''products'' None None" "Arr (productRows s)" "Iso t" t1]
        assms(1) h 1 r1 [of PRODUCTS] by (simp add: allKey_def)
    have a1s: "cacheAgrees (allKey ''sales'' None None) (Arr (saleRows s1)) s1"
      using get_agrees [of s BACKUPS "allKey ''sales'' None None" "Arr (saleRows s)" "Iso t" t1]
        assms(1) h 1 r1 [of SALES] by (simp add: allKey_def)
    have a1t: "cacheAgrees (allKey ''settings'' None None) (Arr (settingRows s1)) s1"
      using get_agrees [of s BACKUPS "allKey ''settings'' None None" "Arr (settingRows s)" "Iso t" t1]
        assms(1) h 1 r1 [of SETTINGS] by (simp add: allKey_def)
    have snap: "fst (getSystemData t1 s1) =
        Payload (Some (productRows s)) (Some (saleRows s)) (Some (settingsObject (settingRows s)))"
      using getSystemData_snapshot [OF d1 w a1p a1s a1t, of t1]
        r1 [of PRODUCTS] r1 [of SALES] r1 [of SETTINGS] by simp
    have k1: "Some (Iso t1) \<notin> set (keysOf BACKUPS s1)"
      using frame_keysOf [OF f1, of BACKUPS] h by simp
    have c1: "length (filter (\<lambda>b. t1 < timeOf b) (backupRows s1)) < 30"
      using r1 [of BACKUPS] h by simp
    show ?thesis
      using createBackup_kept [OF d1 w1 k1 c1, of "''pre_restore''" None] 2 snap by auto
  qed
  show ?thesis
    using 1 2 rows2 run 3(1) 4 p sa se pre
    by (intro exI [of _ tk] exI [of _ s2]) simp
qed

lemma singleton_rows:
  assumes "set (rowsOf st s) = {x}" "wfStore st s"
  shows "rowsOf st s = [x]"
proof -
  have "distinct (rowsOf st s)" using assms(2) by (simp add: wfStore_rows distinct_map)
  then show ?thesis using assms(1)
    by (cases "rowsOf st s") (auto simp: insert_eq_iff dest!: subset_singletonD)
qed

section \<open>The claims\<close>

subsection \<open>Evaluation of the examples\<close>

lemmas eval_defs = newSystem_def openSystem_def cachedSystem_def cachedAfterAdd_def
  exhaustedSystem_def syncingSystem_def add_def update_def delete_def
  transaction_def objectStore_def execAdd_def execPut_def execDelete_def inlineKey_def keysOf_def
  bumpGenerator_def invalidatePattern_def spawnAudit_def newLogEntry_def idOrKey_def

lemma getOrFetch_miss:
  "cacheGet k (cache s) = None \<Longrightarrow> fst (getOrFetch tc ts k f ttl s) = fst (f s)"
  by (simp add: getOrFetch_def Let_def split: prod.splits sum.splits)

lemma add_cache: "add now n r s = (Inr k, s') \<Longrightarrow> \<forall>e\<in>set (cache s'). \<not> str_includes (fst e) n"
  by (auto simp: add_def invalidatePattern_def spawnAudit_def split: if_splits sum.splits prod.splits)

lemma update_cache: "update now n r s = (Inr k, s') \<Longrightarrow> \<forall>e\<in>set (cache s'). \<not> str_includes (fst e) n"
  by (auto simp: update_def invalidatePattern_def spawnAudit_def split: if_splits sum.splits prod.splits)

lemma delete_cache: "delete now n k s = (Inr b, s') \<Longrightarrow> \<forall>e\<in>set (cache s'). \<not> str_includes (fst e) n"
  by (auto simp: delete_def invalidatePattern_def spawnAudit_def split: if_splits sum.splits prod.splits)

lemma write_cache:
  assumes "add now n r s = (Inr k, s') \<or> update now n r s = (Inr k, s') \<or> delete now n k' s = (Inr b, s')"
  shows "\<forall>e\<in>set (cache s'). \<not> str_includes (fst e) n"
  using assms add_cache update_cache delete_cache by blast

subsection \<open>C2: write-path cache invalidation\<close>

text \<open>
  Claim C2. Whenever \<open>add\<close>, \<open>update\<close> or \<open>delete\<close> on store \<open>n\<close> resolves, the state it
  hands back to its caller has no cache entry whose key contains \<open>n\<close>, and so a following
  \<open>getOrFetch\<close> for any key that contains \<open>n\<close> returns what its fetch function computes on that
  state, never a value cached before the write.
\<close>

theorem write_invalidates_cache:
  assumes "add now n r s = (Inr k, s') \<or> update now n r s = (Inr k, s')
           \<or> delete now n k' s = (Inr b, s')"
  shows "(\<forall>e\<in>set (cache s'). \<not> str_includes (fst e) n) \<and>
         (\<forall>ck. str_includes ck n \<longrightarrow> fst (getOrFetch tc ts ck f ttl s') = fst (f s'))"
proof -
  have a: "\<forall>e\<in>set (cache s'). \<not> str_includes (fst e) n"
    using assms by (rule write_cache)
  have "cacheGet ck (cache s') = None" if "str_includes ck n" for ck
    using a that by (intro cacheGet_None) auto
  then show ?thesis using a by (simp add: getOrFetch_miss)
qed

theorem write_invalidates_cache_witness:
  "add 5 ''products'' (Product 1 2 ''a'') cachedSystem = (Inr (Num 1), cachedAfterAdd) \<and>
   map fst (cache cachedAfterAdd) = [''sales_all_null__''] \<and>
   fst (getOrFetch 6 6 ''products_all_null__'' (fetchAll 6 ''products'' None None) 300000 cachedAfterAdd)
     = fst (fetchAll 6 ''products'' None None cachedAfterAdd)"
proof -
  have a: "add 5 ''products'' (Product 1 2 ''a'') cachedSystem = (Inr (Num 1), cachedAfterAdd)"
    by (simp add: eval_defs)
  have b: "str_includes ''products_all_null__'' ''products''" by simp
  show ?thesis
    using a b write_invalidates_cache [OF disjI1 [OF a], of 6 6 "fetchAll 6 ''products'' None None" 300000]
    by (simp add: cachedAfterAdd_def)
qed

subsection \<open>C10: bulkAdd with nothing to add\<close>

text \<open>
  Claim C10. For every store name, \<open>bulkAdd\<close> with a null or undefined list (\<open>None\<close>), with an
  empty list, or on a manager whose database handle is not initialised, resolves with 0 and
  leaves the whole state as it was: no row written, no cache entry removed, no audit entry
  started.
\<close>

theorem bulkAdd_nothing_to_add:
  "items = None \<or> items = Some [] \<or> \<not> db s \<Longrightarrow> bulkAdd now n items s = (Inr 0, s)"
  by (auto simp: bulkAdd_def)

theorem bulkAdd_nothing_to_add_witness:
  "\<not> db newSystem \<and> bulkAdd 5 ''products'' (Some [Product 1 2 ''a'']) newSystem = (Inr 0, newSystem)
   \<and> bulkAdd 5 ''nowhere'' None openSystem = (Inr 0, openSystem)
   \<and> bulkAdd 5 ''sales'' (Some []) cachedSystem = (Inr 0, cachedSystem)"
  using bulkAdd_nothing_to_add [of "Some [Product 1 2 ''a'']" newSystem 5 "''products''"]
    bulkAdd_nothing_to_add [of None openSystem 5 "''nowhere''"]
    bulkAdd_nothing_to_add [of "Some []" cachedSystem 5 "''sales''"]
  by (simp add: newSystem_def)

subsection \<open>C9: the audit append never fails the recorded operation\<close>

lemma add_result_indep:
  "n \<noteq> ''audit_log'' \<Longrightarrow> fst (add now n r (s\<lparr>auditStore := a, nextAuditId := m\<rparr>)) = fst (add now n r s)"
  by (auto simp: add_def transaction_def objectStore_def execAdd_def keysOf_def split: option.splits)

lemma update_result_indep:
  "n \<noteq> ''audit_log'' \<Longrightarrow> fst (update now n r (s\<lparr>auditStore := a, nextAuditId := m\<rparr>)) = fst (update now n r s)"
  by (auto simp: update_def transaction_def objectStore_def execPut_def execAdd_def keysOf_def split: option.splits)

lemma delete_result_indep:
  "n \<noteq> ''audit_log'' \<Longrightarrow> fst (delete now n k (s\<lparr>auditStore := a, nextAuditId := m\<rparr>)) = fst (delete now n k s)"
  by (auto simp: delete_def transaction_def objectStore_def split: option.splits)

text \<open>
  Claim C9. For every action and details, \<open>logAudit\<close> returns normally, whatever happens to the
  append inside it; and the result of \<open>add\<close>, \<open>update\<close> and \<open>delete\<close> on a data store does not depend
  on the state of the audit store (whether it exists, and where its key generator stands), so
  no failure of the audit append can make them reject.
\<close>

theorem logAudit_never_fails:
  "fst (logAudit now action dt s) = Inr () \<and>
   (n \<noteq> ''audit_log'' \<longrightarrow>
      fst (add now n r (s\<lparr>auditStore := a, nextAuditId := m\<rparr>)) = fst (add now n r s) \<and>
      fst (update now n r (s\<lparr>auditStore := a, nextAuditId := m\<rparr>)) = fst (update now n r s) \<and>
      fst (delete now n k (s\<lparr>auditStore := a, nextAuditId := m\<rparr>)) = fst (delete now n k s))"
  by (simp add: logAudit_def add_result_indep update_result_indep delete_result_indep
      split: prod.splits sum.splits)

theorem logAudit_never_fails_witness:
  "fst (logAuditBody 5 ''restore_backup'' (RestoredFrom (Iso 1)) exhaustedSystem) = Inl ConstraintError \<and>
   fst (logAudit 5 ''restore_backup'' (RestoredFrom (Iso 1)) exhaustedSystem) = Inr () \<and>
   fst (add 5 ''products'' (Product 1 2 ''a'') exhaustedSystem) = Inr (Num 1) \<and>
   fst (add 5 ''products'' (Product 1 2 ''a'') openSystem) = Inr (Num 1)"
proof -
  have e: "exhaustedSystem = openSystem\<lparr>auditStore := True, nextAuditId := 2 ^ 53 + 1\<rparr>"
    by (simp add: exhaustedSystem_def openSystem_def)
  have b: "fst (logAuditBody 5 ''restore_backup'' (RestoredFrom (Iso 1)) exhaustedSystem) = Inl ConstraintError"
    by (simp add: logAuditBody_def eval_defs settle_def withGeneratedId.simps)
  have c: "fst (add 5 ''products'' (Product 1 2 ''a'') openSystem) = Inr (Num 1)"
    by (simp add: eval_defs)
  show ?thesis
    using b c
      logAudit_never_fails [where now = 5 and action = "''restore_backup''"
        and dt = "RestoredFrom (Iso 1)" and s = exhaustedSystem and n = "''audit_log''"
        and r = "Product 1 2 ''a''" and a = True and m = 1 and k = "Num 1"]
      logAudit_never_fails [where now = 5 and action = "''restore_backup''"
        and dt = "RestoredFrom (Iso 1)" and s = openSystem and n = "''products''"
        and r = "Product 1 2 ''a''" and a = True and m = "2 ^ 53 + 1" and k = "Num 1"]
    by (simp add: e)
qed

subsection \<open>C8: sync reentrancy guard\<close>



subsection \<open>C4: backup retention\<close>

text \<open>
  Claim C4. On an open database whose backup store is in key order: a \<open>createBackup\<close> at a
  timestamp not yet in the store inserts the new backup and then keeps only the 30 most recent
  backups by timestamp; and a run of \<open>createBackup\<close> calls at increasing timestamps, later than
  those in the store, leaves exactly the 30 most recent timestamps (the whole sequence if there
  are fewer), so that 35 backups from an empty store leave the last 30.
\<close>

theorem backup_retention:
  assumes "db s" and "wfStore BACKUPS s"
  shows "(Some (Iso now) \<notin> set (keysOf BACKUPS s) \<longrightarrow>
            fst (createBackup now ty dt s) = Some (Iso now) \<and>
            (\<exists>d info.
               backupRows (snd (createBackup now ty dt s)) =
                 drop (Suc (length (backupRows s)) - 30)
                   (insort_key (inlineKey BACKUPS) (Backup now ty d 3 info) (backupRows s))) \<and>
            sorted (map timeOf (backupRows (snd (createBackup now ty dt s)))))
       \<and> (sorted_wrt (<) ts \<and> (\<forall>b\<in>set (backupRows s). \<forall>t\<in>set ts. timeOf b < t)
            \<and> length (backupRows s) \<le> 30 \<longrightarrow>
            map timeOf (backupRows (createBackups ts ty s)) =
              drop (length (backupRows s) + length ts - 30) (map timeOf (backupRows s) @ ts))"
proof (intro conjI impI)
  assume fresh: "Some (Iso now) \<notin> set (keysOf BACKUPS s)"
  from createBackup_ok [OF assms fresh, of ty dt]
  obtain d info s' where s': "createBackup now ty dt s = (Some (Iso now), s')"
    "backupRows s' = drop (Suc (length (backupRows s)) - 30)
          (insort_key (inlineKey BACKUPS) (Backup now ty d 3 info) (backupRows s))"
    "wfStore BACKUPS s'" by blast
  show "fst (createBackup now ty dt s) = Some (Iso now)" using s'(1) by simp
  show "\<exists>d info. backupRows (snd (createBackup now ty dt s)) =
                 drop (Suc (length (backupRows s)) - 30)
                   (insort_key (inlineKey BACKUPS) (Backup now ty d 3 info) (backupRows s))"
    using s'(1,2) by auto
  show "sorted (map timeOf (backupRows (snd (createBackup now ty dt s))))"
    using s'(1) wf_backups_sorted [OF s'(3)] by simp
next
  assume "sorted_wrt (<) ts \<and> (\<forall>b\<in>set (backupRows s). \<forall>t\<in>set ts. timeOf b < t)
            \<and> length (backupRows s) \<le> 30"
  then show "map timeOf (backupRows (createBackups ts ty s)) =
              drop (length (backupRows s) + length ts - 30) (map timeOf (backupRows s) @ ts)"
    using assms by (intro createBackups_window) simp_all
qed

theorem backup_retention_witness:
  "db openSystem \<and> wfStore BACKUPS openSystem \<and>
   Some (Iso 7) \<notin> set (keysOf BACKUPS openSystem) \<and>
   fst (createBackup 7 ''manual'' None openSystem) = Some (Iso 7) \<and>
   sorted_wrt (<) [1 ..< 36] \<and> length (backupRows openSystem) \<le> 30 \<and>
   map timeOf (backupRows (createBackups [1 ..< 36] ''manual'' openSystem)) = [6 ..< 36]"
proof -
  have a: "db openSystem" "wfStore BACKUPS openSystem" "backupRows openSystem = []"
    by (simp_all add: openSystem_def newSystem_def wfStore_def keysOf_def)
  have b: "sorted_wrt (<) [1 ..< 36]" by (simp add: sorted_wrt_upt)
  have c: "drop 5 [1 ..< 36] = [6 ..< 36]" by (simp add: drop_upt)
  show ?thesis
    using a b c backup_retention [OF a(1,2), of 7 "''manual''" None "[1 ..< 36]"]
    by (simp add: keysOf_def)
qed


subsection \<open>C6: what the integrity check repairs\<close>



subsection \<open>C7: archival, backup then delete\<close>




subsection \<open>C3: eviction order of the query cache\<close>


subsection \<open>C5: restoring a backup\<close>

text \<open>
  Claim C5, as amended. On an open database whose backup store is in key order, take a backup
  of the store, read through a cache that agrees with the store, whose payload has present and
  distinct ids in each collection. \<open>restoreBackup\<close> calls \<open>createBackup\<close> for the \<open>pre_restore\<close>
  backup, which leaves the three data stores as they are, and then saves the payload from the
  state \<open>s2\<close> so reached, whatever \<open>createBackup\<close> answered. After the restore the product store
  and the sale store hold exactly the payload's list when that list is non-empty, and are as
  before when it is empty or missing; the setting store holds exactly the payload's settings
  when the payload has settings. The \<open>pre_restore\<close> backup is created, with the three stores as
  they were before the restore, when moreover the data stores are in key order, the cache
  agrees with them, and the backup store holds no backup with the timestamp of the run and
  fewer than 30 later ones.
\<close>

theorem restore_replaces_nonempty:
  assumes "db s" and "wfStore BACKUPS s"
    and "Backup t ty (Payload ps ss es) v i \<in> set (backupRows s)"
    and "cacheAgrees (''backups_'' @ keyText (Iso t)) (Obj (Backup t ty (Payload ps ss es) v i)) s"
    and "wellKeyed PRODUCTS (listOf ps)" and "wellKeyed SALES (listOf ss)"
    and "distinct (map fst (listOf es))"
  shows "\<exists>tk s2.
      createBackup t1 ''pre_restore'' None (snd (get t1 ''backups'' (Iso t) s)) = (tk, s2) \<and>
      restoreBackup t1 t2 (Iso t) s =
        (True, snd (logAudit t2 ''restore_backup'' (RestoredFrom (Iso t))
                      (snd (saveSystemData t2 (Some (Payload ps ss es)) s2)))) \<and>
      productRows s2 = productRows s \<and> saleRows s2 = saleRows s \<and> settingRows s2 = settingRows s \<and>
      replacedBy PRODUCTS ps s (snd (restoreBackup t1 t2 (Iso t) s)) \<and>
      replacedBy SALES ss s (snd (restoreBackup t1 t2 (Iso t) s)) \<and>
      settingsReplacedBy es s (snd (restoreBackup t1 t2 (Iso t) s)) \<and>
      (wfStore PRODUCTS s \<and> wfStore SALES s \<and> wfStore SETTINGS s \<and>
       cacheAgrees (allKey ''products'' None None) (Arr (productRows s)) s \<and>
       cacheAgrees (allKey ''sales'' None None) (Arr (saleRows s)) s \<and>
       cacheAgrees (allKey ''settings'' None None) (Arr (settingRows s)) s \<and>
       Some (Iso t1) \<notin> set (keysOf BACKUPS s) \<and>
       length (filter (\<lambda>b. t1 < timeOf b) (backupRows s)) < 30 \<longrightarrow>
         tk = Some (Iso t1) \<and>
         (\<exists>info. Backup t1 ''pre_restore''
                   (Payload (Some (productRows s)) (Some (saleRows s))
                      (Some (settingsObject (settingRows s)))) 3 info \<in> set (backupRows s2)))"
  using assms by (rule restoreBackup_parts)

theorem restore_replaces_nonempty_witness:
  "db restorableSystem \<and> wfStore BACKUPS restorableSystem \<and>
   fst (restoreBackup 100 101 (Iso 50) restorableSystem) = True \<and>
   productRows (snd (restoreBackup 100 101 (Iso 50) restorableSystem)) = [Product 2 3 ''new''] \<and>
   saleRows (snd (restoreBackup 100 101 (Iso 50) restorableSystem)) = [Sale 8 20 None ''t''] \<and>
   settingRows (snd (restoreBackup 100 101 (Iso 50) restorableSystem)) = [Setting ''tax'' ''5''] \<and>
   fst (createBackup 100 ''pre_restore'' None (snd (get 100 ''backups'' (Iso 50) restorableSystem)))
     = Some (Iso 100) \<and>
   Some (Payload (Some [Product 1 5 ''old'']) (Some [Sale 7 10 None ''s'']) (Some [(''tax'', ''6'')]))
     \<in> set (map dataOf (backupRows (snd (createBackup 100 ''pre_restore'' None
                                            (snd (get 100 ''backups'' (Iso 50) restorableSystem))))))"
proof -
  let ?s = restorableSystem
  let ?s' = "snd (restoreBackup 100 101 (Iso 50) restorableSystem)"
  have r: "db ?s" "productRows ?s = [Product 1 5 ''old'']" "saleRows ?s = [Sale 7 10 None ''s'']"
    "settingRows ?s = [Setting ''tax'' ''6'']"
    "backupRows ?s = [Backup 50 ''manual''
                      (Payload (Some [Product 2 3 ''new'']) (Some [Sale 8 20 None ''t''])
                         (Some [(''tax'', ''5'')])) 3 None]" "cache ?s = []"
    by (simp_all add: restorableSystem_def openSystem_def newSystem_def)
  have w: "wfStore BACKUPS ?s" "wfStore PRODUCTS ?s" "wfStore SALES ?s" "wfStore SETTINGS ?s"
    by (simp_all add: wfStore_rows r inlineKey_def)
  have c: "cacheAgrees k x ?s" for k x by (simp add: cacheAgrees_def r)
  have p: "wellKeyed PRODUCTS (listOf (Some [Product 2 3 ''new'']))"
    "wellKeyed SALES (listOf (Some [Sale 8 20 None ''t'']))"
    "distinct (map fst (listOf (Some [(''tax'', ''5'')])))"
    by (simp_all add: wellKeyed_def listOf_def inlineKey_def)
  have m: "Backup 50 ''manual'' (Payload (Some [Product 2 3 ''new'']) (Some [Sale 8 20 None ''t''])
                         (Some [(''tax'', ''5'')])) 3 None \<in> set (backupRows ?s)"
    by (simp add: r)
  have k: "Some (Iso 100) \<notin> set (keysOf BACKUPS ?s)"
    "length (filter (\<lambda>b. 100 < timeOf b) (backupRows ?s)) < 30"
    by (simp_all add: keysOf_def inlineKey_def r)
  obtain tk :: "key option" and s2 :: system where t:
    "createBackup 100 ''pre_restore'' None (snd (get 100 ''backups'' (Iso 50) ?s)) = (tk, s2)"
    "restoreBackup 100 101 (Iso 50) ?s =
        (True, snd (logAudit 101 ''restore_backup'' (RestoredFrom (Iso 50))
                      (snd (saveSystemData 101 (Some (Payload (Some [Product 2 3 ''new''])
                           (Some [Sale 8 20 None ''t'']) (Some [(''tax'', ''5'')]))) s2))))"
    "replacedBy PRODUCTS (Some [Product 2 3 ''new'']) ?s ?s'"
    "replacedBy SALES (Some [Sale 8 20 None ''t'']) ?s ?s'"
    "settingsReplacedBy (Some [(''tax'', ''5'')]) ?s ?s'"
    "tk = Some (Iso 100)"
    "\<exists>info. Backup 100 ''pre_restore''
                   (Payload (Some (productRows ?s)) (Some (saleRows ?s))
                      (Some (settingsObject (settingRows ?s)))) 3 info \<in> set (backupRows s2)"
    using restore_replaces_nonempty [OF r(1) w(1) m c p, of 100 101] w(2,3,4) c k by blast
  have 1: "fst (restoreBackup 100 101 (Iso 50) ?s) = True" using t(2) by simp
  have 2: "productRows ?s' = [Product 2 3 ''new'']"
    using t(3) singleton_rows [of PRODUCTS ?s' "Product 2 3 ''new''"] by (simp add: replacedBy_def)
  have 3: "saleRows ?s' = [Sale 8 20 None ''t'']"
    using t(4) singleton_rows [of SALES ?s' "Sale 8 20 None ''t''"] by (simp add: replacedBy_def)
  have 4: "settingRows ?s' = [Setting ''tax'' ''5'']"
    using t(5) singleton_rows [of SETTINGS ?s' "Setting ''tax'' ''5''"] by (simp add: settingsReplacedBy_def)
  have 5: "fst (createBackup 100 ''pre_restore'' None (snd (get 100 ''backups'' (Iso 50) ?s))) = Some (Iso 100)"
    using t(1,6) by simp
  have 6: "Some (Payload (Some [Product 1 5 ''old'']) (Some [Sale 7 10 None ''s'']) (Some [(''tax'', ''6'')]))
     \<in> set (map dataOf (backupRows s2))"
    using t(7) by (force simp: r settingsObject_def)
  show ?thesis using r(1) w(1) 1 2 3 4 5 6 t(1) by simp
qed

text \<open>
  Claim C5 as stated fails. The backup of timestamp 50 has one product and an empty sale list.
  \<open>saveSystemData\<close> clears a store only under \<^verbatim>\<open>data.sales && data.sales.length > 0\<close>, so the
  restore replaces the products and leaves the sale of the store where it is: the sale store
  does not equal the payload. The run is at clock reading 100, the timestamp of the other
  backup: \<open>createBackup\<close> answers \<^verbatim>\<open>null\<close>, no \<open>pre_restore\<close> backup is written, and the restore
  goes on.
\<close>

theorem restore_keeps_rows_of_empty_collection:
  "Backup 50 ''manual'' (Payload (Some [Product 2 3 ''new'']) (Some []) (Some [])) 3 None
     \<in> set (backupRows restoreSystem) \<and>
   fst (restoreBackup 100 101 (Iso 50) restoreSystem) = True \<and>
   productRows (snd (restoreBackup 100 101 (Iso 50) restoreSystem)) = [Product 2 3 ''new''] \<and>
   saleRows (snd (restoreBackup 100 101 (Iso 50) restoreSystem)) = [Sale 7 10 None ''s''] \<and>
   fst (createBackup 100 ''pre_restore'' None (snd (get 100 ''backups'' (Iso 50) restoreSystem))) = None \<and>
   backupRows (snd (createBackup 100 ''pre_restore'' None (snd (get 100 ''backups'' (Iso 50) restoreSystem))))
     = backupRows restoreSystem"
proof -
  let ?s = restoreSystem
  let ?s' = "snd (restoreBackup 100 101 (Iso 50) restoreSystem)"
  let ?s1 = "snd (get 100 ''backups'' (Iso 50) restoreSystem)"
  have r: "db ?s" "productRows ?s = [Product 1 5 ''old'']" "saleRows ?s = [Sale 7 10 None ''s'']"
    "backupRows ?s = [Backup 50 ''manual'' (Payload (Some [Product 2 3 ''new'']) (Some []) (Some [])) 3 None,
                    Backup 100 ''manual'' (Payload (Some []) (Some []) (Some [])) 3 None]" "cache ?s = []"
    by (simp_all add: restoreSystem_def openSystem_def newSystem_def)
  have w: "wfStore BACKUPS ?s" by (simp add: wfStore_rows r inlineKey_def)
  have c: "cacheAgrees k x ?s" for k x by (simp add: cacheAgrees_def r)
  have p: "wellKeyed PRODUCTS (listOf (Some [Product 2 3 ''new'']))"
    "wellKeyed SALES (listOf (Some []))" "distinct (map fst (listOf (Some [])))"
    by (simp_all add: wellKeyed_def listOf_def inlineKey_def)
  have m: "Backup 50 ''manual'' (Payload (Some [Product 2 3 ''new'']) (Some []) (Some [])) 3 None
             \<in> set (backupRows ?s)"
    by (simp add: r)
  obtain tk :: "key option" and s2 :: system where t:
    "restoreBackup 100 101 (Iso 50) ?s =
        (True, snd (logAudit 101 ''restore_backup'' (RestoredFrom (Iso 50))
                      (snd (saveSystemData 101 (Some (Payload (Some [Product 2 3 ''new''])
                           (Some []) (Some []))) s2))))"
    "replacedBy PRODUCTS (Some [Product 2 3 ''new'']) ?s ?s'"
    "replacedBy SALES (Some []) ?s ?s'"
    using restoreBackup_parts [OF r(1) w m c p, of 100 101] by blast
  have 1: "fst (restoreBackup 100 101 (Iso 50) ?s) = True" using t(1) by simp
  have 2: "productRows ?s' = [Product 2 3 ''new'']"
    using t(2) singleton_rows [of PRODUCTS ?s' "Product 2 3 ''new''"] by (simp add: replacedBy_def)
  have 3: "saleRows ?s' = [Sale 7 10 None ''s'']"
    using t(3) by (simp add: replacedBy_def r)
  have f1: "frame ?s ?s1" by (rule get_frame)
  have d1: "db ?s1" using f1 r(1) by (simp add: frame_fields)
  have k1: "Some (Iso 100) \<in> set (keysOf BACKUPS ?s1)"
    using frame_keysOf [OF f1, of BACKUPS] by (simp add: keysOf_def inlineKey_def r)
  have 4: "fst (createBackup 100 ''pre_restore'' None ?s1) = None"
    "frame ?s1 (snd (createBackup 100 ''pre_restore'' None ?s1))"
    using createBackup_taken [OF d1 k1, of "''pre_restore''" None] by simp_all
  have 5: "backupRows (snd (createBackup 100 ''pre_restore'' None ?s1)) = backupRows ?s"
    using frame_fields(6) [OF 4(2)] frame_fields(6) [OF f1] by simp
  show ?thesis using m 1 2 3 4(1) 5 by simp
qed

end
